theory Spec2Isabelle
  imports Complex_Main
begin

unbundle bit_operations_syntax

section \<open>JavaScript strings and numbers\<close>

text \<open>
  The scripts are JavaScript. A string of the workflow (an e-mail address, a response
  body, a school name) is a \<^typ>\<open>string\<close>; the one function that reads character codes,
  \<open>encryptToTargetHex\<close>, takes the string as its UTF-16 code units, each a natural
  number. Counters are natural numbers; a value that may be \<open>undefined\<close> or \<open>null\<close> is an
  \<^typ>\<open>'a option\<close>. The numbers read from the prompts and from \<open>config.json\<close> are IEEE
  doubles: they are real numbers here, and sums and products are rounded as the
  doubles round them (section on the run parameters).
\<close>

type_synonym code_unit = nat
type_synonym js_string = "code_unit list"

definition utf16 :: "string \<Rightarrow> js_string" where
  "utf16 s = map of_char s"

definition digit_char :: "nat \<Rightarrow> char" where
  "digit_char d = ''0123456789abcdefghijklmnopqrstuvwxyz'' ! d"

text \<open>\<open>Number.prototype.toString(radix)\<close> on a non-negative integer.\<close>

function toStringRadix :: "nat \<Rightarrow> nat \<Rightarrow> string" where
  "toStringRadix radix n =
     (if n < radix \<or> radix < 2 then [digit_char n]
      else toStringRadix radix (n div radix) @ [digit_char (n mod radix)])"
  by pat_completeness auto
termination
  by (relation "measure (\<lambda>(radix, n). n)") auto

declare toStringRadix.simps [simp del]

definition padStart :: "nat \<Rightarrow> char \<Rightarrow> string \<Rightarrow> string" where
  "padStart targetLength c s = replicate (targetLength - length s) c @ s"

definition is_space :: "char \<Rightarrow> bool" where
  "is_space c \<longleftrightarrow> of_char c \<in> {9, 10, 11, 12, 13, 32, 160 :: nat}"

definition js_trim :: "string \<Rightarrow> string" where
  "js_trim s = rev (dropWhile is_space (rev (dropWhile is_space s)))"

definition is_upper :: "char \<Rightarrow> bool" where
  "is_upper c \<longleftrightarrow> 65 \<le> (of_char c :: nat) \<and> (of_char c :: nat) \<le> 90"

definition is_lower :: "char \<Rightarrow> bool" where
  "is_lower c \<longleftrightarrow> 97 \<le> (of_char c :: nat) \<and> (of_char c :: nat) \<le> 122"

definition is_digit :: "char \<Rightarrow> bool" where
  "is_digit c \<longleftrightarrow> 48 \<le> (of_char c :: nat) \<and> (of_char c :: nat) \<le> 57"

definition is_alnum :: "char \<Rightarrow> bool" where
  "is_alnum c \<longleftrightarrow> is_upper c \<or> is_lower c \<or> is_digit c"

text \<open>\<open>toLowerCase\<close> on the letters A to Z (the callers apply it to ASCII text).\<close>

definition toLowerCase :: "string \<Rightarrow> string" where
  "toLowerCase s = map (\<lambda>c. if is_upper c then char_of (of_char c + (32 :: nat)) else c) s"

definition startsWith :: "string \<Rightarrow> string \<Rightarrow> bool" where
  "startsWith s p \<longleftrightarrow> take (length p) s = p"

primrec includes_str :: "string \<Rightarrow> string \<Rightarrow> bool" where
  "includes_str [] needle = (needle = [])"
| "includes_str (c # cs) needle = (startsWith (c # cs) needle \<or> includes_str cs needle)"


section \<open>\<open>encryptToTargetHex\<close>\<close>

text \<open>
  \<^verbatim>\<open>
  function encryptToTargetHex(input) {
    let hexResult = "";
    for (const char of input) {
      const encryptedCharCode = char.charCodeAt(0) ^ 0x05;
      hexResult += encryptedCharCode.toString(16).padStart(2, "0");
    }
    return hexResult;
  }
  \<close>
  \<open>for ... of\<close> walks a string by code points: a high surrogate followed by a low
  surrogate is one \<open>char\<close> of two code units, every other code unit is a \<open>char\<close> of its
  own. \<open>charCodeAt(0)\<close> is the first code unit of the \<open>char\<close>.
\<close>

definition is_high_surrogate :: "code_unit \<Rightarrow> bool" where
  "is_high_surrogate u \<longleftrightarrow> 0xD800 \<le> u \<and> u \<le> 0xDBFF"

definition is_low_surrogate :: "code_unit \<Rightarrow> bool" where
  "is_low_surrogate u \<longleftrightarrow> 0xDC00 \<le> u \<and> u \<le> 0xDFFF"

fun string_iterator :: "js_string \<Rightarrow> js_string list" where
  "string_iterator [] = []"
| "string_iterator [u] = [[u]]"
| "string_iterator (u # v # us) =
     (if is_high_surrogate u \<and> is_low_surrogate v then [u, v] # string_iterator us
      else [u] # string_iterator (v # us))"

fun charCodeAt0 :: "js_string \<Rightarrow> nat" where
  "charCodeAt0 [] = 0"
| "charCodeAt0 (u # us) = u"

definition encryptToTargetHex :: "js_string \<Rightarrow> string" where
  "encryptToTargetHex input =
     foldl (\<lambda>hexResult char.
              let encryptedCharCode = charCodeAt0 char XOR 0x05
              in hexResult @ padStart 2 (CHR ''0'') (toStringRadix 16 encryptedCharCode))
       [] (string_iterator input)"

text \<open>
  The decoder of the claim about \<open>encryptToTargetHex\<close>: it reads the hex string two
  digits at a time and XORs each value with 5. It is not part of the repository.
\<close>

definition hex_value :: "char \<Rightarrow> nat" where
  "hex_value c = (if is_digit c then of_char c - 48 else of_char c - 87)"

fun decode_hex_pairs :: "string \<Rightarrow> js_string" where
  "decode_hex_pairs (a # b # rest) = ((16 * hex_value a + hex_value b) XOR 0x05) # decode_hex_pairs rest"
| "decode_hex_pairs rest = []"


section \<open>Matching a college by name\<close>

text \<open>
  \<^verbatim>\<open>
  function normalizeName(name) {
      if (!name) return '';
      return name
          .replace(/\([^)]*\)/g, ' ')
          .replace(/[^a-zA-Z0-9]+/g, ' ')
          .trim()
          .toLowerCase();
  }
  \<close>
  The first replacement turns every parenthesised group (an opening parenthesis up to
  the next closing one) into a space, left to right; an opening parenthesis with no
  closing one after it stays. The second turns every run of other characters into one
  space.
\<close>

function replace_parens :: "string \<Rightarrow> string" where
  "replace_parens [] = []"
| "replace_parens (c # cs) =
     (if c = CHR ''('' \<and> CHR '')'' \<in> set cs
      then CHR '' '' # replace_parens (tl (dropWhile (\<lambda>d. d \<noteq> CHR '')'') cs))
      else c # replace_parens cs)"
  by pat_completeness auto
termination
proof (relation "measure length")
  show "wf (measure length)" by simp
next
  fix c :: char and cs :: string
  have "length (dropWhile (\<lambda>d. d \<noteq> CHR '')'') cs) \<le> length cs"
    by (rule length_dropWhile_le)
  then have "length (tl (dropWhile (\<lambda>d. d \<noteq> CHR '')'') cs)) \<le> length cs"
    by simp
  then show "(tl (dropWhile (\<lambda>d. d \<noteq> CHR '')'') cs), c # cs) \<in> measure length"
    by simp
next
  fix c :: char and cs :: string
  show "(cs, c # cs) \<in> measure length" by simp
qed

function replace_non_alnum :: "string \<Rightarrow> string" where
  "replace_non_alnum [] = []"
| "replace_non_alnum (c # cs) =
     (if is_alnum c then c # replace_non_alnum cs
      else CHR '' '' # replace_non_alnum (dropWhile (\<lambda>d. \<not> is_alnum d) cs))"
  by pat_completeness auto
termination
proof (relation "measure length")
  show "wf (measure length)" by simp
next
  fix c :: char and cs :: string
  show "(cs, c # cs) \<in> measure length" by simp
next
  fix c :: char and cs :: string
  have "length (dropWhile (\<lambda>d. \<not> is_alnum d) cs) \<le> length cs"
    by (rule length_dropWhile_le)
  then show "(dropWhile (\<lambda>d. \<not> is_alnum d) cs, c # cs) \<in> measure length"
    by simp
qed

definition normalizeName :: "string option \<Rightarrow> string" where
  "normalizeName name =
     (case name of
        None \<Rightarrow> []
      | Some n \<Rightarrow>
          if n = [] then []
          else toLowerCase (js_trim (replace_non_alnum (replace_parens n))))"

record college =
  college_id :: int
  college_name :: "string option"

text \<open>
  \<^verbatim>\<open>
  function findCollegeByName(collegesMap, schoolName) {
      const target = normalizeName(schoolName);
      if (!target) return null;
      let partialMatch = null;
      for (const college of collegesMap.values()) {
          const normalizedCollege = normalizeName(college.name);
          if (normalizedCollege === target) {
              return college;
          }
          if (!partialMatch && (normalizedCollege.includes(target) || target.includes(normalizedCollege))) {
              partialMatch = college;
          }
      }
      return partialMatch;
  }
  \<close>
  \<open>collegesMap.values()\<close> walks the map in insertion order: the map is the list of its
  values in that order.
\<close>

fun findCollege_loop :: "string \<Rightarrow> college option \<Rightarrow> college list \<Rightarrow> college option" where
  "findCollege_loop target partialMatch [] = partialMatch"
| "findCollege_loop target partialMatch (college # rest) =
     (let normalizedCollege = normalizeName (college_name college)
      in if normalizedCollege = target then Some college
         else if partialMatch = None \<and>
                 (includes_str normalizedCollege target \<or> includes_str target normalizedCollege)
              then findCollege_loop target (Some college) rest
              else findCollege_loop target partialMatch rest)"

definition findCollegeByName :: "college list \<Rightarrow> string option \<Rightarrow> college option" where
  "findCollegeByName collegesMap schoolName =
     (let target = normalizeName schoolName
      in if target = [] then None else findCollege_loop target None collegesMap)"


section \<open>Run parameters\<close>

text \<open>
  JavaScript numbers are IEEE 754 doubles: a sum or a product is the exact result
  rounded to the nearest number with a 53-bit significand, a tie going to the even
  significand. \<open>to_double\<close> is that rounding for a value of at least 1 (the values the
  launcher computes are: the number of accounts is at least 1) and below the overflow
  threshold \<open>2^1024\<close>: a value whose integer part has \<open>b\<close> bits lies between
  \<open>2^(b-1)\<close> and \<open>2^b\<close>, where neighbouring doubles are \<open>2^b / 2^53\<close> apart.
\<close>

function bit_length :: "nat \<Rightarrow> nat" where
  "bit_length n = (if n = 0 then 0 else bit_length (n div 2) + 1)"
  by pat_completeness auto
termination
  by (relation "measure (\<lambda>n. n)") auto

declare bit_length.simps [simp del]

definition round_half_even :: "real \<Rightarrow> int" where
  "round_half_even r =
     (let f = \<lfloor>r\<rfloor>; d = r - of_int f
      in if d < 1 / 2 then f else if 1 / 2 < d then f + 1 else if even f then f else f + 1)"

definition to_double :: "real \<Rightarrow> real" where
  "to_double x =
     (if x < 1 then x
      else (let ulp = 2 ^ bit_length (nat \<lfloor>x\<rfloor>) / 2 ^ 53
            in of_int (round_half_even (x / ulp)) * ulp))"

text \<open>
  The turbo launcher reads the number of accounts, the concurrency and the batch size
  from prompts and \<open>config.json\<close>. \<open>parseInt\<close> and \<open>Number\<close> are JavaScript built-ins: the
  model takes their results, \<open>None\<close> for \<open>NaN\<close>. \<open>parseInt\<close> gives a whole number,
  \<open>Number(config.batchSize)\<close> any number, also a fractional one; both are finite here
  (\<open>parseInt\<close> gives \<open>Infinity\<close> only for a count of more than 308 digits).
  (\<open>config.maxConcurrent\<close> only sets the default shown in the prompt: both branches
  below overwrite it.)
  \<^verbatim>\<open>
  const DEFAULT_BATCH_SIZE = 50;
  let BATCH_SIZE = Number(config.batchSize) > 0 ? Number(config.batchSize) : DEFAULT_BATCH_SIZE;
  ...
  let loopCount = parseInt(count);
  if (isNaN(loopCount) || loopCount <= 0) { loopCount = 1; }
  const parsedBatch = parseInt(batchInput, 10);
  if (!isNaN(parsedBatch) && parsedBatch > 0) { BATCH_SIZE = parsedBatch; }
  const parsedConcurrency = parseInt(concurrencyInput, 10);
  if (!isNaN(parsedConcurrency) && parsedConcurrency > 0) {
    MAX_CONCURRENT_REQUESTS = parsedConcurrency;
  } else {
    MAX_CONCURRENT_REQUESTS = BATCH_SIZE;
  }
  ...
  const maxAttempts = Math.max(loopCount * 3, loopCount + MAX_CONCURRENT_REQUESTS);
  \<close>
  The record of the parameters is generic in the type of the three limits: the
  launcher computes them as doubles, the queues below are written for whole numbers.
\<close>

record 'n run_config =
  loopCount :: nat
  BATCH_SIZE :: 'n
  MAX_CONCURRENT_REQUESTS :: 'n
  maxAttempts :: 'n

definition positive_or :: "int option \<Rightarrow> nat \<Rightarrow> nat" where
  "positive_or parsed fallback =
     (case parsed of None \<Rightarrow> fallback | Some n \<Rightarrow> if 0 < n then nat n else fallback)"

definition positive_number_or :: "real option \<Rightarrow> real \<Rightarrow> real" where
  "positive_number_or parsed fallback =
     (case parsed of None \<Rightarrow> fallback | Some x \<Rightarrow> if 0 < x then x else fallback)"

definition turbo_config ::
  "real option \<Rightarrow> int option \<Rightarrow> int option \<Rightarrow> int option \<Rightarrow> real run_config" where
  "turbo_config config_batchSize count concurrencyInput batchInput =
     (let DEFAULT_BATCH_SIZE = 50;
          batch0 = positive_number_or config_batchSize DEFAULT_BATCH_SIZE;
          loops = positive_or count 1;
          batch1 = positive_number_or (map_option of_int batchInput) batch0;
          concurrency = positive_number_or (map_option of_int concurrencyInput) batch1
      in \<lparr>loopCount = loops, BATCH_SIZE = batch1, MAX_CONCURRENT_REQUESTS = concurrency,
          maxAttempts = max (to_double (real loops * 3)) (to_double (real loops + concurrency))\<rparr>)"

text \<open>
  The queues compare their counters, which are whole numbers, with the limits: a
  counter \<open>k\<close> is below a limit \<open>x\<close> exactly when it is below \<open>x\<close> rounded up, and has
  reached \<open>x\<close> exactly when it has reached \<open>x\<close> rounded up. So a run under the limits the
  launcher computed is the run under these limits rounded up to whole numbers, for
  which the queues are written below.
\<close>

definition whole_limits :: "real run_config \<Rightarrow> nat run_config" where
  "whole_limits cfg =
     \<lparr>loopCount = loopCount cfg, BATCH_SIZE = nat \<lceil>BATCH_SIZE cfg\<rceil>,
      MAX_CONCURRENT_REQUESTS = nat \<lceil>MAX_CONCURRENT_REQUESTS cfg\<rceil>,
      maxAttempts = nat \<lceil>maxAttempts cfg\<rceil>\<rparr>"


section \<open>External collaborators of one attempt\<close>

text \<open>
  An attempt talks to the network, to \<open>faker\<close> and to the file system. Each such call
  either returns or throws; the model takes the outcome of every call from an
  environment. The network and the file system fail with an \<open>Error\<close> object, which has a
  message (\<open>fetch\<close>, \<open>response.text\<close> and \<open>fs.writeFile\<close> reject with one), and so does
  \<open>faker.date.birthdate\<close> as far as \<open>createAccount\<close> can tell: the call is made inside
  \<open>verify_sendRequest\<close>, and whatever it throws ends in the same \<open>return false\<close>.
\<close>

datatype 'a io = Throws string | Returns 'a

text \<open>
  \<open>faker.internet.username()\<close> is called in the \<open>try\<close> block of \<open>createAccount\<close> itself.
  JavaScript can throw any value: what matters to the handler of \<open>createAccount\<close>, which
  reads \<open>error.message\<close>, is whether the value thrown is \<open>null\<close> or \<open>undefined\<close>
  (reading a property of it throws a \<open>TypeError\<close>) or anything else (an \<open>Error\<close> with its
  message, or a value whose \<open>message\<close> is just \<open>undefined\<close>).
\<close>

datatype thrown = ThrownNullish | ThrownValue string

datatype json =
  JNull | JBool bool | JNum int | JStr string | JArr "json list" | JObj "(string \<times> json) list"

record http_response =
  ok :: bool
  status :: nat
  text_body :: "string io"

record env =
  random_index :: nat
  faker_username :: "thrown + string"
  faker_birthdate :: "string io"
  send_code :: "string \<Rightarrow> string \<Rightarrow> http_response io"
  inbox :: "string option \<Rightarrow> string option \<Rightarrow> nat \<Rightarrow> string io"
  register_verify_login :: "string \<Rightarrow> string \<Rightarrow> string \<Rightarrow> string \<Rightarrow> http_response io"
  JSON_parse :: "string \<Rightarrow> json option"
  writeFile :: "string \<Rightarrow> string \<Rightarrow> unit io"

text \<open>What an attempt does to the outside, in order.\<close>

datatype event = Register | Probe | Sleep nat | Finalize | Append string | AppendFailed

definition probe_calls :: "event list \<Rightarrow> nat" where
  "probe_calls tr = length (filter (\<lambda>e. e = Probe) tr)"

fun js_truthy :: "json \<Rightarrow> bool" where
  "js_truthy JNull = False"
| "js_truthy (JBool b) = b"
| "js_truthy (JNum n) = (n \<noteq> 0)"
| "js_truthy (JStr s) = (s \<noteq> [])"
| "js_truthy (JArr xs) = True"
| "js_truthy (JObj members) = True"

text \<open>Reading a property: \<open>None\<close> is \<open>undefined\<close>. (The fields of a parsed object have distinct keys.)\<close>

fun js_get :: "json \<Rightarrow> string \<Rightarrow> json option" where
  "js_get (JObj members) k = map_of members k"
| "js_get j k = None"

text \<open>\<open>r && r.message === "success"\<close>\<close>

definition is_success :: "json \<Rightarrow> bool" where
  "is_success r \<longleftrightarrow> js_truthy r \<and> js_get r ''message'' = Some (JStr ''success'')"

definition error_response :: "string \<Rightarrow> json" where
  "error_response e = JObj [(''message'', JStr ''error''), (''error'', JStr e)]"

text \<open>
  \<open>regist_sendRequest\<close> and \<open>verify_sendRequest\<close> read the response the same way, inside
  one \<open>try\<close>:
  \<^verbatim>\<open>
    if (!response.ok) {
      return { message: 'error', error: `HTTP ${response.status}` };
    }
    const responseText = await response.text();
    if (!responseText.trim()) {
      return { message: 'error', error: 'Empty response' };
    }
    try {
      const data = JSON.parse(responseText);
      return data;
    } catch (parseError) {
      return { message: 'error', error: 'Invalid JSON response' };
    }
  } catch (error) {
    return { message: 'error', error: error.message };
  }
  \<close>
\<close>

definition read_response :: "env \<Rightarrow> http_response io \<Rightarrow> json" where
  "read_response e fetched =
     (case fetched of
        Throws m \<Rightarrow> error_response m
      | Returns response \<Rightarrow>
          if \<not> ok response then error_response (''HTTP '' @ toStringRadix 10 (status response))
          else (case text_body response of
                  Throws m \<Rightarrow> error_response m
                | Returns responseText \<Rightarrow>
                    if js_trim responseText = [] then error_response ''Empty response''
                    else (case JSON_parse e responseText of
                            None \<Rightarrow> error_response ''Invalid JSON response''
                          | Some data \<Rightarrow> data)))"

definition regist_sendRequest :: "env \<Rightarrow> string \<Rightarrow> string \<Rightarrow> json" where
  "regist_sendRequest e encryptedEmail encryptedPassword =
     read_response e (send_code e encryptedEmail encryptedPassword)"

text \<open>
  \<open>verify_sendRequest\<close> first asks \<open>faker\<close> for a birth date, inside its \<open>try\<close>: when that
  throws, no request is sent. The second component lists the requests sent.
\<close>

definition verify_sendRequest :: "env \<Rightarrow> string \<Rightarrow> string \<Rightarrow> string \<Rightarrow> json \<times> event list" where
  "verify_sendRequest e encryptedEmail encryptedPassword encryptedCode =
     (case faker_birthdate e of
        Throws m \<Rightarrow> (error_response m, [])
      | Returns formattedDate \<Rightarrow>
          (read_response e
             (register_verify_login e encryptedEmail encryptedCode encryptedPassword formattedDate),
           [Finalize]))"

text \<open>
  \<open>functionGetLink\<close> fetches the inbox page and returns the trimmed text of one element;
  any exception is caught and the function returns \<open>null\<close>. The argument \<open>k\<close> is the
  number of earlier calls for this attempt.
\<close>

definition functionGetLink :: "env \<Rightarrow> string option \<Rightarrow> string option \<Rightarrow> nat \<Rightarrow> string option" where
  "functionGetLink e email domain k =
     (case inbox e email domain k of Throws m \<Rightarrow> None | Returns src \<Rightarrow> Some (js_trim src))"

definition falsy :: "string option \<Rightarrow> bool" where
  "falsy v \<longleftrightarrow> (case v of None \<Rightarrow> True | Some s \<Rightarrow> s = [])"


section \<open>The confirmation poll loop\<close>

text \<open>
  \<^verbatim>\<open>
    let verificationCode;
    let attempts = 0;
    const maxAttempts = 12;                       // 4 in the turbo script
    do {
      verificationCode = await functionGetLink(...);
      if (!verificationCode) {
        attempts++;
        await new Promise(resolve => setTimeout(resolve, 6000));
            // turbo: if (attempts < maxAttempts) { ... setTimeout(resolve, 2000) ... }
      }
    } while (!verificationCode && attempts < maxAttempts);
  \<close>
  The bound, the delay and whether the loop still sleeps after the last empty answer
  are the parameters in which the scripts differ. Every call before the current one
  came back empty and added one to \<open>attempts\<close>, so the call made with \<open>attempts = k\<close> is
  call number \<open>k + 1\<close>.
\<close>

record poll_config =
  maxPollAttempts :: nat
  pollIntervalMs :: nat
  sleeps_after_last :: bool

function poll_loop ::
  "poll_config \<Rightarrow> (nat \<Rightarrow> string option) \<Rightarrow> nat \<Rightarrow> event list \<Rightarrow> string option \<times> nat \<times> event list" where
  "poll_loop pc getLink attempts tr =
     (let verificationCode = getLink attempts;
          tr1 = tr @ [Probe]
      in if falsy verificationCode then
           (let attempts1 = attempts + 1;
                tr2 = (if sleeps_after_last pc \<or> attempts1 < maxPollAttempts pc
                       then tr1 @ [Sleep (pollIntervalMs pc)] else tr1)
            in if attempts1 < maxPollAttempts pc then poll_loop pc getLink attempts1 tr2
               else (verificationCode, attempts1, tr2))
         else (verificationCode, attempts, tr1))"
  by pat_completeness auto
termination
  by (relation "measure (\<lambda>(pc, getLink, attempts, tr). maxPollAttempts pc - attempts)") auto

declare poll_loop.simps [simp del]


section \<open>One attempt: \<open>createAccount\<close>\<close>

datatype variant = RaceQueue | TurboQueue

fun poll_config_of :: "variant \<Rightarrow> poll_config" where
  "poll_config_of RaceQueue = \<lparr>maxPollAttempts = 12, pollIntervalMs = 6000, sleeps_after_last = True\<rparr>"
| "poll_config_of TurboQueue = \<lparr>maxPollAttempts = 4, pollIntervalMs = 2000, sleeps_after_last = False\<rparr>"

record account_args =
  index :: nat
  total :: nat
  availableDomains :: "string list"
  selectedProxy :: "string option"
  password :: "string option"

text \<open>\<open>String.prototype.split\<close> on a one-character separator, and indexing the result.\<close>

fun split_on :: "char \<Rightarrow> string \<Rightarrow> string list" where
  "split_on sep [] = [[]]"
| "split_on sep (c # cs) =
     (if c = sep then [] # split_on sep cs
      else (case split_on sep cs of [] \<Rightarrow> [[c]] | p # ps \<Rightarrow> (c # p) # ps))"

definition at_index :: "'a list \<Rightarrow> nat \<Rightarrow> 'a option" where
  "at_index xs i = (if i < length xs then Some (xs ! i) else None)"

definition pick_domain :: "env \<Rightarrow> string list \<Rightarrow> string" where
  "pick_domain e domains =
     (case at_index domains (random_index e mod max 1 (length domains)) of
        None \<Rightarrow> ''undefined'' | Some d \<Rightarrow> d)"

definition make_email :: "string \<Rightarrow> string \<Rightarrow> string" where
  "make_email raw domain =
     take 8 (filter (\<lambda>c. is_lower c \<or> is_digit c) (toLowerCase raw)) @ ''@'' @ domain"

definition saveToFile :: "env \<Rightarrow> string \<Rightarrow> string \<Rightarrow> event" where
  "saveToFile e filename data =
     (case writeFile e filename data of Throws m \<Rightarrow> AppendFailed | Returns u \<Rightarrow> Append data)"

text \<open>
  The body of the \<open>try\<close> block of \<open>createAccount\<close>: \<open>Inl\<close> is a value thrown inside it,
  \<open>Inr\<close> the value of a \<open>return\<close>. \<open>faker\<close> may throw, and \<open>encryptToTargetHex(password)\<close>
  throws a \<open>TypeError\<close> when \<open>config.password\<close> is missing; the three request functions
  and \<open>saveToFile\<close> catch their own exceptions.
\<close>

definition createAccount_try :: "variant \<Rightarrow> env \<Rightarrow> account_args \<Rightarrow> (thrown + bool) \<times> event list" where
  "createAccount_try v e args =
     (let domain = pick_domain e (availableDomains args)
      in case faker_username e of
           Inl error \<Rightarrow> (Inl error, [])
         | Inr raw \<Rightarrow>
             (let email = make_email raw domain
              in case password args of
                   None \<Rightarrow> (Inl (ThrownValue ''input is not iterable''), [])
                 | Some pw \<Rightarrow>
                     (let encryptedHexEmail = encryptToTargetHex (utf16 email);
                          encryptedHexPassword = encryptToTargetHex (utf16 pw);
                          reqnya = regist_sendRequest e encryptedHexEmail encryptedHexPassword
                      in if \<not> is_success reqnya then (Inr False, [Register])
                         else
                           (let parts = split_on (CHR ''@'') email;
                                (verificationCode, attempts, tr) =
                                   poll_loop (poll_config_of v)
                                     (functionGetLink e (at_index parts 0) (at_index parts 1))
                                     0 [Register]
                            in case verificationCode of
                                 None \<Rightarrow> (Inr False, tr)
                               | Some code \<Rightarrow>
                                   if code = [] then (Inr False, tr)
                                   else
                                     (let (verifyResult, sent) =
                                            verify_sendRequest e (encryptToTargetHex (utf16 email))
                                              encryptedHexPassword (encryptToTargetHex (utf16 code))
                                      in if is_success verifyResult
                                         then (Inr True,
                                               tr @ sent @
                                               [saveToFile e ''accounts.txt''
                                                  (email @ '':'' @ pw @ [CHR 0x0A])])
                                         else (Inr False, tr @ sent))))))"

text \<open>
  \<^verbatim>\<open>
  async function createAccount({ index, total, availableDomains, selectedProxy, password }) {
    try {
      ...
    } catch (error) {
      console.log(chalk.red(`... Error in attempt ${index}:`), error.message);
      return false;
    }
  }
  \<close>
  The handler reads \<open>error.message\<close> before it returns: when the value caught is \<open>null\<close>
  or \<open>undefined\<close> that read throws a \<open>TypeError\<close> out of the handler, and the promise
  of \<open>createAccount\<close> is rejected. The result is how the promise settles: \<open>Inr b\<close>
  fulfilled with \<open>b\<close>, \<open>Inl m\<close> rejected with an error of message \<open>m\<close>.
\<close>

definition createAccount :: "variant \<Rightarrow> env \<Rightarrow> account_args \<Rightarrow> (string + bool) \<times> event list" where
  "createAccount v e args =
     (case createAccount_try v e args of
        (Inl ThrownNullish, tr) \<Rightarrow> (Inl ''Cannot read properties of null'', tr)
      | (Inl (ThrownValue message), tr) \<Rightarrow> (Inr False, tr)
      | (Inr result, tr) \<Rightarrow> (Inr result, tr))"

text \<open>
  The failure signals of Phase 1 in the words of the specification: a transport
  error, a non-success status (of the HTTP response or of the answer), a malformed
  response (empty or not JSON), or an answer with an explicit \<open>error\<close> field.
\<close>

definition has_error_field :: "json \<Rightarrow> bool" where
  "has_error_field data \<longleftrightarrow> js_get data ''error'' \<noteq> None"

definition phase1_signals_failure :: "env \<Rightarrow> string \<Rightarrow> string \<Rightarrow> bool" where
  "phase1_signals_failure e encryptedEmail encryptedPassword =
     (case send_code e encryptedEmail encryptedPassword of
        Throws m \<Rightarrow> True
      | Returns response \<Rightarrow>
          \<not> ok response \<or>
          (case text_body response of
             Throws m \<Rightarrow> True
           | Returns responseText \<Rightarrow>
               js_trim responseText = [] \<or>
               (case JSON_parse e responseText of
                  None \<Rightarrow> True
                | Some data \<Rightarrow> has_error_field data \<or> \<not> is_success data)))"

text \<open>
  What the register call must have met for \<open>createAccount\<close> to stop after it, read off
  \<open>regist_sendRequest\<close>: the same signals, except that of a parsed answer only the
  \<open>message\<close> counts.
\<close>

definition registration_refused :: "env \<Rightarrow> string \<Rightarrow> string \<Rightarrow> bool" where
  "registration_refused e encryptedEmail encryptedPassword =
     (case send_code e encryptedEmail encryptedPassword of
        Throws m \<Rightarrow> True
      | Returns response \<Rightarrow>
          \<not> ok response \<or>
          (case text_body response of
             Throws m \<Rightarrow> True
           | Returns responseText \<Rightarrow>
               js_trim responseText = [] \<or>
               (case JSON_parse e responseText of
                  None \<Rightarrow> True
                | Some data \<Rightarrow> \<not> is_success data)))"


section \<open>The orchestrators\<close>

text \<open>
  All three scripts run on one thread: the counters change only when an attempt is
  launched or when the callbacks of a settled attempt run. A state of a run is the
  pair of counters, the attempts in flight (by index, in launch order) and whether the
  promise of the run has been resolved. A completion is one step of the model: the
  \<open>then\<close> and \<open>finally\<close> callbacks of the settled attempt run back to back, each
  completion of network or file I/O being a turn of the event loop of its own. The
  runs followed here are those in which every attempt settles to a boolean, as
  \<open>createAccount\<close> does unless \<open>faker\<close> throws \<open>null\<close> or \<open>undefined\<close>;
  \<open>outcome i\<close> is the boolean of attempt \<open>i\<close>. The attempt that settles next is chosen
  by a pick: pick \<open>p\<close> settles the attempt at position \<open>p mod n\<close> of the \<open>n\<close> in flight,
  so the lists of picks are all completion orders.
\<close>

record orchestrator =
  attemptNumber :: nat
  successCount :: nat
  inFlight :: "nat list"
  resolved :: bool

definition initial :: orchestrator where
  "initial = \<lparr>attemptNumber = 0, successCount = 0, inFlight = [], resolved = False\<rparr>"

definition launch :: "orchestrator \<Rightarrow> orchestrator" where
  "launch s = s\<lparr>attemptNumber := attemptNumber s + 1,
                inFlight := inFlight s @ [attemptNumber s + 1]\<rparr>"

text \<open>The \<open>then\<close> callback counts a success, the \<open>finally\<close> callback deletes the promise.\<close>

definition settled :: "nat \<Rightarrow> bool \<Rightarrow> orchestrator \<Rightarrow> orchestrator" where
  "settled i success s =
     s\<lparr>successCount := (if success then successCount s + 1 else successCount s),
       inFlight := removeAll i (inFlight s)\<rparr>"

definition pick :: "nat \<Rightarrow> nat list \<Rightarrow> nat" where
  "pick p xs = xs ! (p mod length xs)"

datatype run_result = Resolved orchestrator | Hung orchestrator | Pending orchestrator

subsection \<open>The turbo queue: \<open>runHighThroughput\<close>\<close>

text \<open>
  \<^verbatim>\<open>
  const runHighThroughput = async () => new Promise((resolve) => {
    const inFlight = new Set();
    const launchNext = () => {
      if (successCount >= loopCount || (attemptNumber >= maxAttempts && inFlight.size === 0)) {
        return resolve();
      }
      while (inFlight.size < MAX_CONCURRENT_REQUESTS && attemptNumber < maxAttempts && successCount < loopCount) {
        attemptNumber++;
        const attemptPromise = createAccount({ index: attemptNumber, ... })
          .then((success) => { if (success) { successCount++; } })
          .finally(() => { inFlight.delete(attemptPromise); launchNext(); });
        inFlight.add(attemptPromise);
      }
    };
    launchNext();
  });
  \<close>
\<close>

function launch_while :: "nat run_config \<Rightarrow> orchestrator \<Rightarrow> orchestrator" where
  "launch_while cfg s =
     (if length (inFlight s) < MAX_CONCURRENT_REQUESTS cfg \<and> attemptNumber s < maxAttempts cfg \<and>
         successCount s < loopCount cfg
      then launch_while cfg (launch s) else s)"
  by pat_completeness auto
termination
  by (relation "measure (\<lambda>(cfg, s). maxAttempts cfg - attemptNumber s)") (auto simp: launch_def)

declare launch_while.simps [simp del]

definition launchNext :: "nat run_config \<Rightarrow> orchestrator \<Rightarrow> orchestrator" where
  "launchNext cfg s =
     (if loopCount cfg \<le> successCount s \<or> (maxAttempts cfg \<le> attemptNumber s \<and> inFlight s = [])
      then s\<lparr>resolved := True\<rparr>
      else launch_while cfg s)"

definition on_settled :: "nat run_config \<Rightarrow> nat \<Rightarrow> bool \<Rightarrow> orchestrator \<Rightarrow> orchestrator" where
  "on_settled cfg i success s = launchNext cfg (settled i success s)"

text \<open>
  A run up to the moment its promise resolves (\<open>await runHighThroughput()\<close> returns and
  the summary is printed). \<open>Hung\<close>: nothing in flight and not resolved, the promise
  would never resolve. \<open>Pending\<close>: the picks ran out first.
\<close>

fun run_turbo :: "nat run_config \<Rightarrow> (nat \<Rightarrow> bool) \<Rightarrow> nat list \<Rightarrow> orchestrator \<Rightarrow> run_result" where
  "run_turbo cfg outcome [] s =
     (if resolved s then Resolved s else if inFlight s = [] then Hung s else Pending s)"
| "run_turbo cfg outcome (p # ps) s =
     (if resolved s then Resolved s
      else if inFlight s = [] then Hung s
      else (let i = pick p (inFlight s)
            in run_turbo cfg outcome ps (on_settled cfg i (outcome i) s)))"

definition runHighThroughput :: "nat run_config \<Rightarrow> (nat \<Rightarrow> bool) \<Rightarrow> nat list \<Rightarrow> run_result" where
  "runHighThroughput cfg outcome picks = run_turbo cfg outcome picks (launchNext cfg initial)"

text \<open>
  The states an observer sees: after each launch and after each completion, also
  after the promise has resolved, while the attempts left in flight settle.
\<close>

function launch_while_states :: "nat run_config \<Rightarrow> orchestrator \<Rightarrow> orchestrator list" where
  "launch_while_states cfg s =
     (if length (inFlight s) < MAX_CONCURRENT_REQUESTS cfg \<and> attemptNumber s < maxAttempts cfg \<and>
         successCount s < loopCount cfg
      then launch s # launch_while_states cfg (launch s) else [])"
  by pat_completeness auto
termination
  by (relation "measure (\<lambda>(cfg, s). maxAttempts cfg - attemptNumber s)") (auto simp: launch_def)

declare launch_while_states.simps [simp del]

definition launchNext_states :: "nat run_config \<Rightarrow> orchestrator \<Rightarrow> orchestrator list" where
  "launchNext_states cfg s =
     (if loopCount cfg \<le> successCount s \<or> (maxAttempts cfg \<le> attemptNumber s \<and> inFlight s = [])
      then [s\<lparr>resolved := True\<rparr>]
      else launch_while_states cfg s)"

fun turbo_states_from :: "nat run_config \<Rightarrow> (nat \<Rightarrow> bool) \<Rightarrow> nat list \<Rightarrow> orchestrator \<Rightarrow> orchestrator list" where
  "turbo_states_from cfg outcome [] s = []"
| "turbo_states_from cfg outcome (p # ps) s =
     (if inFlight s = [] then []
      else (let i = pick p (inFlight s);
                s1 = settled i (outcome i) s
            in s1 # launchNext_states cfg s1 @ turbo_states_from cfg outcome ps (launchNext cfg s1)))"

definition turbo_states :: "nat run_config \<Rightarrow> (nat \<Rightarrow> bool) \<Rightarrow> nat list \<Rightarrow> orchestrator list" where
  "turbo_states cfg outcome picks =
     initial # launchNext_states cfg initial @ turbo_states_from cfg outcome picks (launchNext cfg initial)"

subsection \<open>The race queue: \<open>queueNext\<close>\<close>

text \<open>
  \<^verbatim>\<open>
    const queueNext = () => {
      while (activePromises.size < MAX_CONCURRENT_REQUESTS && successCount < loopCount) {
        attemptNumber++;
        const promise = createAccount({ index: attemptNumber, ... })
          .then((success) => { if (success) { successCount++; } })
          .finally(() => { activePromises.delete(promise); });
        activePromises.add(promise);
      }
    };
    queueNext();
    while (successCount < loopCount) {
      if (activePromises.size === 0) { queueNext(); }
      if (activePromises.size === 0) { break; }
      await Promise.race(activePromises);
      queueNext();
    }
    await Promise.all(activePromises);
  \<close>
  This script has no attempt budget. \<open>inFlight\<close> is its \<open>activePromises\<close>; \<open>Resolved\<close> is
  reaching the summary after \<open>Promise.all\<close>, when every attempt left has settled.
  The limit of the script is \<open>Number(config.maxConcurrent)\<close> when that is positive and
  50 otherwise; \<open>concurrency\<close> is that limit rounded up to a whole number, \<open>loops\<close> the
  \<open>loopCount\<close> read as in the turbo script.
\<close>

function queueNext :: "nat \<Rightarrow> nat \<Rightarrow> orchestrator \<Rightarrow> orchestrator" where
  "queueNext concurrency loops s =
     (if length (inFlight s) < concurrency \<and> successCount s < loops
      then queueNext concurrency loops (launch s) else s)"
  by pat_completeness auto
termination
  by (relation "measure (\<lambda>(concurrency, loops, s). concurrency - length (inFlight s))")
     (auto simp: launch_def)

declare queueNext.simps [simp del]

function queueNext_states :: "nat \<Rightarrow> nat \<Rightarrow> orchestrator \<Rightarrow> orchestrator list" where
  "queueNext_states concurrency loops s =
     (if length (inFlight s) < concurrency \<and> successCount s < loops
      then launch s # queueNext_states concurrency loops (launch s) else [])"
  by pat_completeness auto
termination
  by (relation "measure (\<lambda>(concurrency, loops, s). concurrency - length (inFlight s))")
     (auto simp: launch_def)

declare queueNext_states.simps [simp del]

definition promise_all :: "(nat \<Rightarrow> bool) \<Rightarrow> orchestrator \<Rightarrow> orchestrator" where
  "promise_all outcome s =
     (foldl (\<lambda>t i. settled i (outcome i) t) s (inFlight s))\<lparr>resolved := True\<rparr>"

fun race_loop :: "nat \<Rightarrow> nat \<Rightarrow> (nat \<Rightarrow> bool) \<Rightarrow> nat list \<Rightarrow> orchestrator \<Rightarrow> run_result" where
  "race_loop concurrency loops outcome [] s =
     (if successCount s < loops then
        (let s1 = (if inFlight s = [] then queueNext concurrency loops s else s)
         in if inFlight s1 = [] then Resolved (promise_all outcome s1) else Pending s1)
      else Resolved (promise_all outcome s))"
| "race_loop concurrency loops outcome (p # ps) s =
     (if successCount s < loops then
        (let s1 = (if inFlight s = [] then queueNext concurrency loops s else s)
         in if inFlight s1 = [] then Resolved (promise_all outcome s1)
            else (let i = pick p (inFlight s1);
                      s2 = settled i (outcome i) s1
                  in race_loop concurrency loops outcome ps (queueNext concurrency loops s2)))
      else Resolved (promise_all outcome s))"

definition race_main :: "nat \<Rightarrow> nat \<Rightarrow> (nat \<Rightarrow> bool) \<Rightarrow> nat list \<Rightarrow> run_result" where
  "race_main concurrency loops outcome picks =
     race_loop concurrency loops outcome picks (queueNext concurrency loops initial)"

fun race_states_from :: "nat \<Rightarrow> nat \<Rightarrow> (nat \<Rightarrow> bool) \<Rightarrow> nat list \<Rightarrow> orchestrator \<Rightarrow> orchestrator list" where
  "race_states_from concurrency loops outcome [] s = []"
| "race_states_from concurrency loops outcome (p # ps) s =
     (if inFlight s = [] then []
      else (let i = pick p (inFlight s);
                s1 = settled i (outcome i) s
            in s1 # queueNext_states concurrency loops s1 @
               race_states_from concurrency loops outcome ps (queueNext concurrency loops s1)))"

definition race_states :: "nat \<Rightarrow> nat \<Rightarrow> (nat \<Rightarrow> bool) \<Rightarrow> nat list \<Rightarrow> orchestrator list" where
  "race_states concurrency loops outcome picks =
     initial # queueNext_states concurrency loops initial @
     race_states_from concurrency loops outcome picks (queueNext concurrency loops initial)"

subsection \<open>The batch launcher\<close>

text \<open>
  \<^verbatim>\<open>
    const promises = [];
    for (let i = 1; i <= loopCount; i++) {
      promises.push((async () => { ... })());
    }
    await Promise.all(promises);
  \<close>
  Every attempt is started at once; the script has neither a concurrency limit nor an
  attempt budget other than \<open>loopCount\<close>.
\<close>

function batch_states :: "nat \<Rightarrow> nat \<Rightarrow> orchestrator \<Rightarrow> orchestrator list" where
  "batch_states loops i s =
     (if i \<le> loops then launch s # batch_states loops (i + 1) (launch s) else [])"
  by pat_completeness auto
termination
  by (relation "measure (\<lambda>(loops, i, s). loops + 1 - i)") auto

declare batch_states.simps [simp del]

subsection \<open>Scenario of the specification\<close>

definition scenario_config :: "nat run_config" where
  "scenario_config = \<lparr>loopCount = 3, BATCH_SIZE = 50, MAX_CONCURRENT_REQUESTS = 2, maxAttempts = 10\<rparr>"

text \<open>The script: attempts 1 and 2 fail, attempts 3, 4 and 5 succeed; later attempts are free.\<close>

definition scripted :: "(nat \<Rightarrow> bool) \<Rightarrow> bool" where
  "scripted outcome \<longleftrightarrow> \<not> outcome 1 \<and> \<not> outcome 2 \<and> outcome 3 \<and> outcome 4 \<and> outcome 5"

definition script_345 :: "nat \<Rightarrow> bool" where
  "script_345 i \<longleftrightarrow> i = 3 \<or> i = 4 \<or> i = 5"

definition all_fail :: "nat \<Rightarrow> bool" where
  "all_fail i \<longleftrightarrow> False"

definition ohio_colleges :: "college list" where
  "ohio_colleges =
     [\<lparr>college_id = 1, college_name = Some ''Ohio State University - Newark (Newark, OH)''\<rparr>,
      \<lparr>college_id = 2, college_name = Some ''Ohio State University (Columbus, OH)''\<rparr>]"


subsection \<open>Environments and probes for the examples\<close>

definition success_json :: json where
  "success_json = JObj [(''message'', JStr ''success'')]"

definition ok_response :: http_response where
  "ok_response = \<lparr>ok = True, status = 200, text_body = Returns ''success-body''\<rparr>"

text \<open>Registration and verification succeed, the inbox stays empty.\<close>

definition quiet_env :: env where
  "quiet_env =
     \<lparr>random_index = 0,
      faker_username = Inr ''Alice.Smith99'',
      faker_birthdate = Returns ''1990-01-01'',
      send_code = (\<lambda>email pw. Returns ok_response),
      inbox = (\<lambda>email domain k. Returns '' ''),
      register_verify_login = (\<lambda>email code pw birthday. Returns ok_response),
      JSON_parse = (\<lambda>t. if t = ''success-body'' then Some success_json else None),
      writeFile = (\<lambda>filename data. Returns ())\<rparr>"

definition inbox_fails_env :: env where
  "inbox_fails_env = quiet_env\<lparr>inbox := (\<lambda>email domain k. Throws ''socket hang up'')\<rparr>"

definition code_arrives_env :: env where
  "code_arrives_env =
     quiet_env\<lparr>inbox := (\<lambda>email domain k. if k < 2 then Returns [] else Returns '' 482913 '')\<rparr>"

definition register_rejected_env :: env where
  "register_rejected_env =
     quiet_env\<lparr>send_code := (\<lambda>email pw.
        Returns \<lparr>ok = False, status = 403, text_body = Returns ''Forbidden''\<rparr>)\<rparr>"

definition faker_throws_env :: env where
  "faker_throws_env = quiet_env\<lparr>faker_username := Inl (ThrownValue ''locale data missing'')\<rparr>"

definition faker_throws_null_env :: env where
  "faker_throws_null_env = quiet_env\<lparr>faker_username := Inl ThrownNullish\<rparr>"

text \<open>The register call is answered with \<open>{"message":"success","error":"rate limited"}\<close>.\<close>

definition success_with_error_json :: json where
  "success_with_error_json = JObj [(''message'', JStr ''success''), (''error'', JStr ''rate limited'')]"

definition success_with_error_env :: env where
  "success_with_error_env =
     quiet_env\<lparr>JSON_parse := (\<lambda>t. if t = ''success-body'' then Some success_with_error_json else None)\<rparr>"

definition demo_args :: account_args where
  "demo_args =
     \<lparr>index = 1, total = 1, availableDomains = [''mail.example''], selectedProxy = None,
      password = Some ''hunter2''\<rparr>"

definition third_probe_answers :: "nat \<Rightarrow> string option" where
  "third_probe_answers k = (if k = 0 then None else if k = 1 then Some [] else Some ''482913'')"

definition never_answers :: "nat \<Rightarrow> string option" where
  "never_answers k = None"

definition single_poll :: poll_config where
  "single_poll = \<lparr>maxPollAttempts = 1, pollIntervalMs = 6000, sleeps_after_last = True\<rparr>"

subsection \<open>Bookkeeping used in the proofs about the orchestrators\<close>

text \<open>
  How many attempts \<open>launchNext\<close> can start from a state; the attempts that have
  settled; the attempts in flight are distinct indices launched so far; the success
  counter counts the settled attempts that succeeded; and the number of completions a
  run of the turbo queue can still see.
\<close>

definition room :: "nat run_config \<Rightarrow> orchestrator \<Rightarrow> nat" where
  "room cfg s = min (MAX_CONCURRENT_REQUESTS cfg - length (inFlight s)) (maxAttempts cfg - attemptNumber s)"

definition completed :: "orchestrator \<Rightarrow> nat set" where
  "completed s = {j. 1 \<le> j \<and> j \<le> attemptNumber s \<and> j \<notin> set (inFlight s)}"

definition well_formed :: "orchestrator \<Rightarrow> bool" where
  "well_formed s \<longleftrightarrow> distinct (inFlight s) \<and> (\<forall>j \<in> set (inFlight s). 1 \<le> j \<and> j \<le> attemptNumber s)"

definition counted :: "(nat \<Rightarrow> bool) \<Rightarrow> orchestrator \<Rightarrow> bool" where
  "counted outcome s \<longleftrightarrow> successCount s = card {j \<in> completed s. outcome j}"

definition within_limits :: "nat run_config \<Rightarrow> orchestrator \<Rightarrow> bool" where
  "within_limits cfg s \<longleftrightarrow>
     attemptNumber s \<le> maxAttempts cfg \<and> length (inFlight s) \<le> MAX_CONCURRENT_REQUESTS cfg"

definition completions_left :: "nat run_config \<Rightarrow> orchestrator \<Rightarrow> nat" where
  "completions_left cfg s = (maxAttempts cfg - attemptNumber s) + length (inFlight s)"

text \<open>A state between two completions of the turbo queue: \<open>launchNext\<close> has just run.\<close>

definition stable :: "nat run_config \<Rightarrow> orchestrator \<Rightarrow> bool" where
  "stable cfg s \<longleftrightarrow>
     (if resolved s
      then loopCount cfg \<le> successCount s \<or> (maxAttempts cfg \<le> attemptNumber s \<and> inFlight s = [])
      else successCount s < loopCount cfg \<and> inFlight s \<noteq> [] \<and>
           (length (inFlight s) = MAX_CONCURRENT_REQUESTS cfg \<or> attemptNumber s = maxAttempts cfg))"

text \<open>The attempts of a run of the turbo queue in the order in which they settle, up to the resolution.\<close>

fun completion_order :: "nat run_config \<Rightarrow> (nat \<Rightarrow> bool) \<Rightarrow> nat list \<Rightarrow> orchestrator \<Rightarrow> nat list" where
  "completion_order cfg outcome [] s = []"
| "completion_order cfg outcome (p # ps) s =
     (if resolved s \<or> inFlight s = [] then []
      else (let i = pick p (inFlight s)
            in i # completion_order cfg outcome ps (on_settled cfg i (outcome i) s)))"

text \<open>What holds between completions in the scenario of the specification.\<close>

definition scenario_inv :: "(nat \<Rightarrow> bool) \<Rightarrow> orchestrator \<Rightarrow> bool" where
  "scenario_inv outcome s \<longleftrightarrow>
     well_formed s \<and> counted outcome s \<and> within_limits scenario_config s \<and>
     stable scenario_config s \<and> 2 \<le> attemptNumber s \<and> successCount s \<le> 3 \<and>
     ((1 \<in> set (inFlight s) \<or> 2 \<in> set (inFlight s)) \<longrightarrow> attemptNumber s \<le> 5) \<and>
     (resolved s \<longrightarrow> inFlight s \<noteq> [] \<or> attemptNumber s = 10)"

section \<open>The attempt budget\<close>

lemma bit_length_upper: "n < 2 ^ bit_length n"
proof (induction n rule: bit_length.induct)
  case (1 n)
  show ?case
  proof (cases "n = 0")
    case True
    then show ?thesis by (subst bit_length.simps) simp
  next
    case False
    from 1[OF False] have "n div 2 < 2 ^ bit_length (n div 2)" .
    then have "n < 2 * 2 ^ bit_length (n div 2)" by linarith
    then show ?thesis using False by (subst bit_length.simps) simp
  qed
qed

lemma bit_length_lower: "0 < n \<Longrightarrow> 2 ^ (bit_length n - 1) \<le> n"
proof (induction n rule: bit_length.induct)
  case (1 n)
  from 1(2) have nz: "n \<noteq> 0" by simp
  show ?case
  proof (cases "n div 2 = 0")
    case True
    then have "bit_length (n div 2) = 0" by (subst bit_length.simps) simp
    then have "bit_length n = 1" using nz by (subst bit_length.simps) simp
    then show ?thesis using nz by simp
  next
    case False
    then have "0 < n div 2" by simp
    from 1(1)[OF nz this] have le: "2 ^ (bit_length (n div 2) - 1) \<le> n div 2" .
    have pos: "0 < bit_length (n div 2)" using False by (subst bit_length.simps) simp
    have "bit_length n = bit_length (n div 2) + 1" using nz by (subst bit_length.simps) simp
    then have "2 ^ (bit_length n - 1) = 2 * 2 ^ (bit_length (n div 2) - 1)"
      using pos by (cases "bit_length (n div 2)") simp_all
    also have "... \<le> 2 * (n div 2)" using le by simp
    also have "... \<le> n" by simp
    finally show ?thesis .
  qed
qed

lemma bit_length_le: "n < 2 ^ k \<Longrightarrow> bit_length n \<le> k"
proof (rule ccontr)
  assume lt: "n < 2 ^ k" and gt: "\<not> bit_length n \<le> k"
  from gt have k: "k \<le> bit_length n - 1" by simp
  from gt have "0 < n" by (cases "n = 0") (simp_all add: bit_length.simps)
  then have low: "(2::nat) ^ (bit_length n - 1) \<le> n" by (rule bit_length_lower)
  from k have "(2::nat) ^ k \<le> 2 ^ (bit_length n - 1)" by (rule power_increasing) simp
  then have "(2::nat) ^ k \<le> n" using low by (rule order_trans)
  with lt show False by simp
qed

lemma round_half_even_int: "round_half_even (of_int z) = z"
  by (simp add: round_half_even_def)

text \<open>Whole numbers below \<open>2^53\<close> are doubles: rounding leaves them as they are.\<close>

lemma to_double_exact: "n < 2 ^ 53 \<Longrightarrow> to_double (real n) = real n"
proof (cases "n = 0")
  case True
  then show ?thesis by (simp add: to_double_def)
next
  case False
  assume lt: "n < 2 ^ 53"
  define b where "b = bit_length n"
  have b: "b \<le> 53" unfolding b_def using lt by (rule bit_length_le)
  have "real n / (2 ^ b / 2 ^ 53) = real n * 2 ^ (53 - b)"
    using b by (simp add: power_diff field_simps)
  also have "... = of_int (int n * 2 ^ (53 - b))" by simp
  finally have q: "real n / (2 ^ b / 2 ^ 53) = of_int (int n * 2 ^ (53 - b))" .
  have "to_double (real n) = of_int (round_half_even (real n / (2 ^ b / 2 ^ 53))) * (2 ^ b / 2 ^ 53)"
    using False by (simp add: to_double_def Let_def b_def)
  also have "... = of_int (int n * 2 ^ (53 - b)) * (2 ^ b / 2 ^ 53)"
    by (simp only: q round_half_even_int)
  also have "... = real n * 2 ^ (53 - b) * (2 ^ b / 2 ^ 53)" by simp
  also have "... = real n" using b by (simp add: power_diff field_simps)
  finally show ?thesis .
qed

text \<open>A counter and a limit: comparing with the limit is comparing with the limit rounded up.\<close>

lemma counter_below_limit: "real k < x \<longleftrightarrow> k < nat \<lceil>x\<rceil>"
  by (simp add: less_ceiling_iff nat_less_iff zless_nat_eq_int_zless)

lemma counter_reached_limit: "x \<le> real k \<longleftrightarrow> nat \<lceil>x\<rceil> \<le> k"
  using counter_below_limit[of k x] by linarith

lemma positive_or_Some: "1 \<le> n \<Longrightarrow> positive_or (Some (int n)) fallback = n"
  by (simp add: positive_or_def)

lemma positive_number_or_Some: "1 \<le> n \<Longrightarrow> positive_number_or (map_option of_int (Some (int n))) fallback = real n"
  by (simp add: positive_number_or_def)

lemma turbo_config_loopCount: "loopCount (turbo_config b c k bi) = positive_or c 1"
  by (simp add: turbo_config_def Let_def)

lemma turbo_config_concurrency:
  "MAX_CONCURRENT_REQUESTS (turbo_config b c k bi) =
     positive_number_or (map_option of_int k)
       (positive_number_or (map_option of_int bi) (positive_number_or b 50))"
  by (simp add: turbo_config_def Let_def)

text \<open>The budget is the formula of the script, computed in doubles, whatever was typed.\<close>

lemma turbo_config_maxAttempts:
  "maxAttempts (turbo_config b c k bi) =
     max (to_double (real (loopCount (turbo_config b c k bi)) * 3))
         (to_double (real (loopCount (turbo_config b c k bi)) +
                     MAX_CONCURRENT_REQUESTS (turbo_config b c k bi)))"
  by (simp add: turbo_config_def Let_def)

text \<open>
  Claim C8, as the code has it. The script has no way to override the budget. For a
  target and a concurrency of at least 1 typed at the prompts, with
  \<open>targetSuccesses * 3\<close> and \<open>targetSuccesses + concurrencyLimit\<close> below \<open>2^53\<close>, the budget
  is \<open>max (targetSuccesses * 3) (targetSuccesses + concurrencyLimit)\<close>. The bound is
  where doubles stop holding every whole number.
\<close>

theorem maxAttempts_default:
  assumes "1 \<le> targetSuccesses" and "1 \<le> concurrencyLimit"
    and "targetSuccesses * 3 < 2 ^ 53" and "targetSuccesses + concurrencyLimit < 2 ^ 53"
  shows "loopCount (turbo_config b (Some (int targetSuccesses)) (Some (int concurrencyLimit)) bi) =
           targetSuccesses \<and>
         MAX_CONCURRENT_REQUESTS (turbo_config b (Some (int targetSuccesses)) (Some (int concurrencyLimit)) bi) =
           real concurrencyLimit \<and>
         maxAttempts (turbo_config b (Some (int targetSuccesses)) (Some (int concurrencyLimit)) bi) =
           real (max (targetSuccesses * 3) (targetSuccesses + concurrencyLimit))"
proof -
  let ?cfg = "turbo_config b (Some (int targetSuccesses)) (Some (int concurrencyLimit)) bi"
  have l: "loopCount ?cfg = targetSuccesses"
    unfolding turbo_config_loopCount using assms(1) by (rule positive_or_Some)
  have m: "MAX_CONCURRENT_REQUESTS ?cfg = real concurrencyLimit"
    unfolding turbo_config_concurrency using assms(2) by (rule positive_number_or_Some)
  have p: "to_double (real targetSuccesses * 3) = real (targetSuccesses * 3)"
    using to_double_exact[OF assms(3)] by simp
  have s: "to_double (real targetSuccesses + real concurrencyLimit) =
             real (targetSuccesses + concurrencyLimit)"
    using to_double_exact[OF assms(4)] by simp
  have "maxAttempts ?cfg =
          max (real (targetSuccesses * 3)) (real (targetSuccesses + concurrencyLimit))"
    unfolding turbo_config_maxAttempts l m p s by (rule refl)
  also have "... = real (max (targetSuccesses * 3) (targetSuccesses + concurrencyLimit))"
    by (simp add: max_def)
  finally show ?thesis using l m by blast
qed

theorem maxAttempts_default_witness:
  "maxAttempts (turbo_config None (Some 3) (Some 2) None) = 9 \<and>
   maxAttempts (turbo_config None (Some 1) (Some 50) None) = 51"
proof -
  have a: "maxAttempts (turbo_config None (Some (int 3)) (Some (int 2)) None) = real (max (3 * 3) (3 + 2))"
    using maxAttempts_default[of 3 2 None None] by simp
  have b: "maxAttempts (turbo_config None (Some (int 1)) (Some (int 50)) None) = real (max (1 * 3) (1 + 50))"
    using maxAttempts_default[of 1 50 None None] by simp
  from a b show ?thesis by simp
qed

text \<open>
  The claim as written fails for large targets: for a target of \<open>2^53 - 1\<close> accounts
  and a concurrency of 1 the product \<open>loopCount * 3\<close> is rounded to a multiple of 4,
  and the budget is one less than \<open>max (targetSuccesses * 3) (targetSuccesses + 1)\<close>.
\<close>

theorem maxAttempts_rounds_large_targets:
  "maxAttempts (turbo_config None (Some 9007199254740991) (Some 1) None) = 27021597764222972 \<and>
   max (9007199254740991 * 3) (9007199254740991 + 1) = (27021597764222973 :: nat)"
proof -
  have b: "bit_length 27021597764222973 = 55" "bit_length 9007199254740992 = 54"
    by (simp_all add: bit_length.simps)
  have p: "to_double 27021597764222973 = 27021597764222972"
    by (simp add: to_double_def b round_half_even_def Let_def)
  have s: "to_double 9007199254740992 = 9007199254740992"
    by (simp add: to_double_def b round_half_even_def Let_def)
  have "maxAttempts (turbo_config None (Some 9007199254740991) (Some 1) None) =
          max (to_double 27021597764222973) (to_double 9007199254740992)"
    by (simp add: turbo_config_def Let_def positive_or_def positive_number_or_def)
  then show ?thesis by (simp add: p s)
qed

text \<open>
  A fractional \<open>config.batchSize\<close> gives fractional limits, which admit one attempt more
  than their whole part: with \<open>batchSize\<close> 2.5 and one account asked for, the limits
  are 2.5 in flight and 3.5 attempts, and a run can have 3 in flight and launch 4.
\<close>

lemma fractional_batch_size:
  "MAX_CONCURRENT_REQUESTS (turbo_config (Some (5 / 2)) (Some 1) None None) = 5 / 2 \<and>
   maxAttempts (turbo_config (Some (5 / 2)) (Some 1) None None) = 7 / 2 \<and>
   whole_limits (turbo_config (Some (5 / 2)) (Some 1) None None) =
     \<lparr>loopCount = 1, BATCH_SIZE = 3, MAX_CONCURRENT_REQUESTS = 3, maxAttempts = 4\<rparr>"
proof -
  have b: "bit_length 3 = 2"
    by (simp add: bit_length.simps)
  have p: "to_double 3 = 3"
    by (simp add: to_double_def b round_half_even_def Let_def)
  have s: "to_double (7 / 2) = 7 / 2"
    by (simp add: to_double_def b round_half_even_def Let_def)
  have c: "turbo_config (Some (5 / 2)) (Some 1) None None =
          \<lparr>loopCount = 1, BATCH_SIZE = 5 / 2, MAX_CONCURRENT_REQUESTS = 5 / 2,
           maxAttempts = max (to_double 3) (to_double (7 / 2))\<rparr>"
    by (simp add: turbo_config_def Let_def positive_or_def positive_number_or_def)
  have "\<lceil>5 / 2 :: real\<rceil> = 3" "\<lceil>7 / 2 :: real\<rceil> = 4" by linarith+
  then show ?thesis unfolding c p s by (simp add: whole_limits_def)
qed

section \<open>\<open>encryptToTargetHex\<close> can be decoded\<close>

lemma hex_value_digit: "d < 16 \<Longrightarrow> hex_value (digit_char d) = d"
proof -
  assume "d < 16"
  then have "d \<in> set [0..<16]" by simp
  moreover have "list_all (\<lambda>d. hex_value (digit_char d) = d) [0..<16]"
    by code_simp
  ultimately show ?thesis
    unfolding list_all_iff by blast
qed

lemma toString16_small: "n < 256 \<Longrightarrow> padStart 2 (CHR ''0'') (toStringRadix 16 n) = [digit_char (n div 16), digit_char (n mod 16)]"
proof (cases "n < 16")
  case True
  then show ?thesis by (subst toStringRadix.simps) (simp add: padStart_def digit_char_def)
next
  case False
  assume "n < 256"
  with False have "n div 16 < 16" by simp
  with False show ?thesis
    by (subst toStringRadix.simps, subst toStringRadix.simps) (simp add: padStart_def)
qed

lemma xor5_small: "(n::nat) < 256 \<Longrightarrow> n XOR 5 < 256"
proof -
  assume a: "n < 256"
  have "int n XOR 5 < 2 ^ 8"
    by (rule XOR_upper) (use a in simp_all)
  then have "int (n XOR 5) < 256" by (simp add: of_nat_xor_eq)
  then show ?thesis by simp
qed

lemma string_iterator_small: "\<forall>u \<in> set input. u \<le> 0xFF \<Longrightarrow> string_iterator input = map (\<lambda>u. [u]) input"
  by (induction input rule: string_iterator.induct) (auto simp: is_high_surrogate_def)

lemma foldl_append_concat: "foldl (\<lambda>acc x. acc @ f x) a xs = a @ concat (map f xs)"
  by (induction xs arbitrary: a) simp_all

lemma encrypt_small:
  assumes "\<forall>u \<in> set input. u \<le> 0xFF"
  shows "encryptToTargetHex input =
         concat (map (\<lambda>u. [digit_char ((u XOR 5) div 16), digit_char ((u XOR 5) mod 16)]) input)"
proof -
  have "encryptToTargetHex input =
        concat (map (\<lambda>char. padStart 2 (CHR ''0'') (toStringRadix 16 (charCodeAt0 char XOR 5)))
                  (string_iterator input))"
    unfolding encryptToTargetHex_def Let_def by (simp add: foldl_append_concat)
  also have "\<dots> = concat (map (\<lambda>u. padStart 2 (CHR ''0'') (toStringRadix 16 (u XOR 5))) input)"
    by (simp add: string_iterator_small[OF assms] comp_def)
  also have "\<dots> = concat (map (\<lambda>u. [digit_char ((u XOR 5) div 16), digit_char ((u XOR 5) mod 16)]) input)"
  proof -
    have "\<And>u. u \<in> set input \<Longrightarrow> padStart 2 (CHR ''0'') (toStringRadix 16 (u XOR 5)) =
              [digit_char ((u XOR 5) div 16), digit_char ((u XOR 5) mod 16)]"
    proof -
      fix u assume "u \<in> set input"
      with assms have "u < 256" by fastforce
      then have "u XOR 5 < 256" by (rule xor5_small)
      then show "padStart 2 (CHR ''0'') (toStringRadix 16 (u XOR 5)) =
              [digit_char ((u XOR 5) div 16), digit_char ((u XOR 5) mod 16)]"
        by (rule toString16_small)
    qed
    then show ?thesis by (simp cong: map_cong)
  qed
  finally show ?thesis .
qed

lemma decode_pair: "n < 256 \<Longrightarrow>
  decode_hex_pairs (digit_char ((n XOR 5) div 16) # digit_char ((n XOR 5) mod 16) # rest) = n # decode_hex_pairs rest"
proof -
  assume "n < 256"
  then have m: "n XOR 5 < 256" by (rule xor5_small)
  then have "(n XOR 5) div 16 < 16" by simp
  then have a: "hex_value (digit_char ((n XOR 5) div 16)) = (n XOR 5) div 16"
    by (rule hex_value_digit)
  have b: "hex_value (digit_char ((n XOR 5) mod 16)) = (n XOR 5) mod 16"
    by (rule hex_value_digit) simp
  have "(n XOR 5) XOR 5 = n" by (simp add: xor.assoc)
  with a b show ?thesis by simp
qed

lemma decode_encrypt_small:
  "\<forall>u \<in> set input. u \<le> 0xFF \<Longrightarrow>
   decode_hex_pairs (concat (map (\<lambda>u. [digit_char ((u XOR 5) div 16), digit_char ((u XOR 5) mod 16)]) input)) = input"
proof (induction input)
  case Nil
  then show ?case by simp
next
  case (Cons u us)
  then have "u < 256" by simp
  from decode_pair[OF this] Cons show ?case by simp
qed

text \<open>
  Claim C9. On a string whose code units are all at most \<open>0xFF\<close>, \<open>encryptToTargetHex\<close>
  returns twice as many hex digits as the string has characters; reading the digits
  two at a time and XOR-ing each value with 5 gives the string back; hence two such
  strings with the same encryption are equal.
\<close>

theorem encryptToTargetHex_roundtrip:
  assumes "\<forall>u \<in> set input. u \<le> 0xFF"
  shows "length (encryptToTargetHex input) = 2 * length input \<and>
         decode_hex_pairs (encryptToTargetHex input) = input \<and>
         (\<forall>other. (\<forall>u \<in> set other. u \<le> 0xFF) \<longrightarrow>
              encryptToTargetHex other = encryptToTargetHex input \<longrightarrow> other = input)"
proof (intro conjI allI impI)
  show "length (encryptToTargetHex input) = 2 * length input"
    by (simp add: encrypt_small[OF assms] length_concat comp_def sum_list_triv)
  show d: "decode_hex_pairs (encryptToTargetHex input) = input"
    by (simp add: encrypt_small[OF assms] decode_encrypt_small[OF assms])
  fix other
  assume o: "\<forall>u \<in> set other. u \<le> 0xFF"
    and e: "encryptToTargetHex other = encryptToTargetHex input"
  have "decode_hex_pairs (encryptToTargetHex other) = other"
    by (simp add: encrypt_small[OF o] decode_encrypt_small[OF o])
  with e d show "other = input" by simp
qed

theorem encryptToTargetHex_roundtrip_witness:
  "length (encryptToTargetHex [97, 64, 0, 255]) = 8 \<and>
   encryptToTargetHex [97, 64, 0, 255] = ''644505fa'' \<and>
   decode_hex_pairs (encryptToTargetHex [97, 64, 0, 255]) = [97, 64, 0, 255]"
proof -
  have h: "\<forall>u \<in> set [97, 64, 0, 255 :: nat]. u \<le> 0xFF" by simp
  note r = encryptToTargetHex_roundtrip[OF h]
  have l: "length (encryptToTargetHex [97, 64, 0, 255]) = 8"
    using r[THEN conjunct1] by simp
  have e: "encryptToTargetHex [97, 64, 0, 255] = ''644505fa''"
    by (simp add: encryptToTargetHex_def is_high_surrogate_def padStart_def
          toStringRadix.simps digit_char_def)
  from l e r[THEN conjunct2, THEN conjunct1] show ?thesis by blast
qed


section \<open>An exact college match wins\<close>

lemma findCollege_loop_exact:
  "\<exists>c \<in> set cs. normalizeName (college_name c) = target \<Longrightarrow>
   \<exists>c. findCollege_loop target pm cs = Some c \<and> c \<in> set cs \<and> normalizeName (college_name c) = target"
proof (induction cs arbitrary: pm)
  case Nil
  then show ?case by simp
next
  case (Cons college rest)
  show ?case
  proof (cases "normalizeName (college_name college) = target")
    case True
    then show ?thesis by simp
  next
    case False
    with Cons.prems have "\<exists>c \<in> set rest. normalizeName (college_name c) = target" by simp
    from Cons.IH[OF this] False show ?thesis by (auto simp: Let_def)
  qed
qed

text \<open>
  Claim C10. When the normalized school name is empty, \<open>findCollegeByName\<close> returns
  \<open>null\<close>. Otherwise, when some college of the map has exactly that normalized name, the
  result is a college of the map with exactly that normalized name, whatever the
  order of the map and whatever partial matches come first.
\<close>

theorem findCollegeByName_exact:
  "(normalizeName schoolName = [] \<longrightarrow> findCollegeByName collegesMap schoolName = None) \<and>
   (normalizeName schoolName \<noteq> [] \<and>
      (\<exists>c \<in> set collegesMap. normalizeName (college_name c) = normalizeName schoolName) \<longrightarrow>
      (\<exists>c. findCollegeByName collegesMap schoolName = Some c \<and> c \<in> set collegesMap \<and>
           normalizeName (college_name c) = normalizeName schoolName))"
  using findCollege_loop_exact[of collegesMap "normalizeName schoolName" None]
  by (simp add: findCollegeByName_def Let_def)

theorem findCollegeByName_exact_witness:
  "normalizeName (Some ''ohio state university'') \<noteq> [] \<and>
   findCollegeByName ohio_colleges (Some ''ohio state university'') = Some (ohio_colleges ! 1) \<and>
   (\<exists>c. findCollegeByName ohio_colleges (Some ''ohio state university'') = Some c \<and>
        c \<in> set ohio_colleges \<and>
        normalizeName (college_name c) = normalizeName (Some ''ohio state university'')) \<and>
   findCollegeByName ohio_colleges (Some ''(Columbus)'') = None"
proof -
  have n: "normalizeName (Some ''ohio state university'') \<noteq> []" by code_simp
  have x: "normalizeName (college_name (ohio_colleges ! 1)) = normalizeName (Some ''ohio state university'')"
    by code_simp
  have "ohio_colleges ! 1 \<in> set ohio_colleges" by (simp add: ohio_colleges_def)
  with x have h: "\<exists>c \<in> set ohio_colleges.
      normalizeName (college_name c) = normalizeName (Some ''ohio state university'')" by blast
  have r: "findCollegeByName ohio_colleges (Some ''ohio state university'') = Some (ohio_colleges ! 1)"
    by code_simp
  have e: "normalizeName (Some ''(Columbus)'') = []" by code_simp
  from findCollegeByName_exact[of "Some ''(Columbus)''" ohio_colleges, THEN conjunct1] e
  have a: "findCollegeByName ohio_colleges (Some ''(Columbus)'') = None" by blast
  from findCollegeByName_exact[of "Some ''ohio state university''" ohio_colleges, THEN conjunct2] n h
  have b: "\<exists>c. findCollegeByName ohio_colleges (Some ''ohio state university'') = Some c \<and>
        c \<in> set ohio_colleges \<and>
        normalizeName (college_name c) = normalizeName (Some ''ohio state university'')" by blast
  from n r a b show ?thesis by blast
qed

section \<open>The poll loop\<close>

lemma poll_found:
  "\<lbrakk>attempts \<le> n; n < maxPollAttempts pc; \<forall>k. attempts \<le> k \<and> k < n \<longrightarrow> falsy (getLink k);
    \<not> falsy (getLink n)\<rbrakk>
   \<Longrightarrow> \<exists>tr'. poll_loop pc getLink attempts tr = (getLink n, n, tr') \<and>
            probe_calls tr' = probe_calls tr + (n - attempts + 1) \<and>
            (\<exists>rest. tr' = tr @ rest)"
proof (induction pc getLink attempts tr rule: poll_loop.induct)
  case (1 pc getLink attempts tr)
  show ?case
  proof (cases "attempts = n")
    case True
    with 1 show ?thesis
      by (subst poll_loop.simps) (simp add: probe_calls_def)
  next
    case False
    with 1 have lt: "attempts < n" and f: "falsy (getLink attempts)" by auto
    let ?tr2 = "if sleeps_after_last pc \<or> attempts + 1 < maxPollAttempts pc
                then (tr @ [Probe]) @ [Sleep (pollIntervalMs pc)] else tr @ [Probe]"
    from lt 1 have m: "attempts + 1 < maxPollAttempts pc" by simp
    have "\<exists>tr'. poll_loop pc getLink (attempts + 1) ?tr2 = (getLink n, n, tr') \<and>
            probe_calls tr' = probe_calls ?tr2 + (n - (attempts + 1) + 1) \<and>
            (\<exists>rest. tr' = ?tr2 @ rest)"
      using 1 lt f m by (intro "1.IH"[OF refl refl f refl refl m]) auto
    then obtain tr' where
      r: "poll_loop pc getLink (attempts + 1) ?tr2 = (getLink n, n, tr')"
      and c: "probe_calls tr' = probe_calls ?tr2 + (n - (attempts + 1) + 1)"
      and e: "\<exists>rest. tr' = ?tr2 @ rest" by blast
    have "poll_loop pc getLink attempts tr = poll_loop pc getLink (attempts + 1) ?tr2"
      using f m by (subst poll_loop.simps) (simp add: Let_def)
    with r c e lt show ?thesis
      by (auto simp: probe_calls_def)
  qed
qed

lemma poll_timeout:
  "\<lbrakk>attempts < maxPollAttempts pc; \<forall>k. attempts \<le> k \<and> k < maxPollAttempts pc \<longrightarrow> falsy (getLink k)\<rbrakk>
   \<Longrightarrow> \<exists>v tr'. poll_loop pc getLink attempts tr = (v, maxPollAttempts pc, tr') \<and> falsy v \<and>
            probe_calls tr' = probe_calls tr + (maxPollAttempts pc - attempts) \<and>
            (\<exists>rest. tr' = tr @ rest \<and> Finalize \<notin> set rest)"
proof (induction pc getLink attempts tr rule: poll_loop.induct)
  case (1 pc getLink attempts tr)
  from 1 have f: "falsy (getLink attempts)" by auto
  let ?tr2 = "if sleeps_after_last pc \<or> attempts + 1 < maxPollAttempts pc
              then (tr @ [Probe]) @ [Sleep (pollIntervalMs pc)] else tr @ [Probe]"
  show ?case
  proof (cases "attempts + 1 < maxPollAttempts pc")
    case True
    have "\<exists>v tr'. poll_loop pc getLink (attempts + 1) ?tr2 = (v, maxPollAttempts pc, tr') \<and> falsy v \<and>
            probe_calls tr' = probe_calls ?tr2 + (maxPollAttempts pc - (attempts + 1)) \<and>
            (\<exists>rest. tr' = ?tr2 @ rest \<and> Finalize \<notin> set rest)"
      using 1 True f by (intro "1.IH"[OF refl refl f refl refl True]) auto
    then obtain v tr' where
      r: "poll_loop pc getLink (attempts + 1) ?tr2 = (v, maxPollAttempts pc, tr')"
      and v: "falsy v"
      and c: "probe_calls tr' = probe_calls ?tr2 + (maxPollAttempts pc - (attempts + 1))"
      and e: "\<exists>rest. tr' = ?tr2 @ rest \<and> Finalize \<notin> set rest" by blast
    have "poll_loop pc getLink attempts tr = poll_loop pc getLink (attempts + 1) ?tr2"
      using f True by (subst poll_loop.simps) (simp add: Let_def)
    with r v c e True show ?thesis
      by (auto simp: probe_calls_def)
  next
    case False
    with 1 have "attempts + 1 = maxPollAttempts pc" by simp
    with f show ?thesis
      by (subst poll_loop.simps) (auto simp: Let_def probe_calls_def)
  qed
qed

text \<open>
  Claim C4. For every probe and every bound \<open>maxPollAttempts\<close> of at least 1 (1 and
  12 among them): when the first \<open>N - 1\<close> probes come back empty and probe \<open>N\<close>, with
  \<open>N\<close> at most the bound, does not, the loop calls the probe exactly \<open>N\<close> times and ends
  with the answer of probe \<open>N\<close>; when all \<open>maxPollAttempts\<close> probes come back empty, it
  calls the probe exactly \<open>maxPollAttempts\<close> times and ends without a code (after which
  \<open>createAccount\<close> returns \<open>false\<close>).
\<close>

theorem poll_loop_correct:
  assumes "1 \<le> maxPollAttempts pc"
  shows "(1 \<le> N \<and> N \<le> maxPollAttempts pc \<and> (\<forall>k < N - 1. falsy (getLink k)) \<and>
             \<not> falsy (getLink (N - 1)) \<longrightarrow>
            (\<exists>tr. poll_loop pc getLink 0 [] = (getLink (N - 1), N - 1, tr) \<and> probe_calls tr = N)) \<and>
         ((\<forall>k < maxPollAttempts pc. falsy (getLink k)) \<longrightarrow>
            (\<exists>v tr. poll_loop pc getLink 0 [] = (v, maxPollAttempts pc, tr) \<and> falsy v \<and>
                    probe_calls tr = maxPollAttempts pc))"
proof (intro conjI impI)
  assume a: "1 \<le> N \<and> N \<le> maxPollAttempts pc \<and> (\<forall>k < N - 1. falsy (getLink k)) \<and>
             \<not> falsy (getLink (N - 1))"
  then have "N - 1 < maxPollAttempts pc" by arith
  from poll_found[of 0 "N - 1" pc getLink "[]", OF _ this] a
  obtain tr where "poll_loop pc getLink 0 [] = (getLink (N - 1), N - 1, tr)"
    and "probe_calls tr = probe_calls [] + (N - 1 - 0 + 1)" by auto
  with a show "\<exists>tr. poll_loop pc getLink 0 [] = (getLink (N - 1), N - 1, tr) \<and> probe_calls tr = N"
    by (simp add: probe_calls_def)
next
  assume a: "\<forall>k < maxPollAttempts pc. falsy (getLink k)"
  from assms have "0 < maxPollAttempts pc" by simp
  from poll_timeout[of 0 pc getLink "[]", OF this] a
  obtain v tr where "poll_loop pc getLink 0 [] = (v, maxPollAttempts pc, tr)" and "falsy v"
    and "probe_calls tr = probe_calls [] + (maxPollAttempts pc - 0)" by auto
  then show "\<exists>v tr. poll_loop pc getLink 0 [] = (v, maxPollAttempts pc, tr) \<and> falsy v \<and>
                    probe_calls tr = maxPollAttempts pc"
    by (simp add: probe_calls_def)
qed

theorem poll_loop_correct_witness:
  "poll_loop (poll_config_of RaceQueue) third_probe_answers 0 [] =
     (Some ''482913'', 2, [Probe, Sleep 6000, Probe, Sleep 6000, Probe]) \<and>
   (\<exists>tr. poll_loop (poll_config_of RaceQueue) third_probe_answers 0 [] =
            (third_probe_answers (3 - 1), 3 - 1, tr) \<and> probe_calls tr = 3) \<and>
   poll_loop single_poll never_answers 0 [] = (None, 1, [Probe, Sleep 6000]) \<and>
   (\<exists>v tr. poll_loop single_poll never_answers 0 [] = (v, maxPollAttempts single_poll, tr) \<and>
           falsy v \<and> probe_calls tr = maxPollAttempts single_poll)"
proof -
  have m12: "1 \<le> maxPollAttempts (poll_config_of RaceQueue)" by simp
  have m1: "1 \<le> maxPollAttempts single_poll" by (simp add: single_poll_def)
  have h: "1 \<le> (3::nat) \<and> 3 \<le> maxPollAttempts (poll_config_of RaceQueue) \<and>
           (\<forall>k < 3 - 1. falsy (third_probe_answers k)) \<and> \<not> falsy (third_probe_answers (3 - 1))"
    by (simp add: third_probe_answers_def falsy_def)
  have n: "\<forall>k < maxPollAttempts single_poll. falsy (never_answers k)"
    by (simp add: never_answers_def falsy_def)
  have a: "\<exists>tr. poll_loop (poll_config_of RaceQueue) third_probe_answers 0 [] =
            (third_probe_answers (3 - 1), 3 - 1, tr) \<and> probe_calls tr = 3"
    using poll_loop_correct[OF m12, of 3 third_probe_answers, THEN conjunct1] h by blast
  have b: "\<exists>v tr. poll_loop single_poll never_answers 0 [] = (v, maxPollAttempts single_poll, tr) \<and>
           falsy v \<and> probe_calls tr = maxPollAttempts single_poll"
    using poll_loop_correct[OF m1, of 1 never_answers, THEN conjunct2] n by blast
  have c: "poll_loop (poll_config_of RaceQueue) third_probe_answers 0 [] =
     (Some ''482913'', 2, [Probe, Sleep 6000, Probe, Sleep 6000, Probe])"
    by (simp add: poll_loop.simps third_probe_answers_def falsy_def)
  have d: "poll_loop single_poll never_answers 0 [] = (None, 1, [Probe, Sleep 6000])"
    by (simp add: poll_loop.simps never_answers_def falsy_def single_poll_def)
  from a b c d show ?thesis by blast
qed

lemma code_arrives_on_third_probe:
  "poll_loop (poll_config_of TurboQueue) (functionGetLink code_arrives_env email domain) 0 [Register] =
     (Some ''482913'', 2, [Register, Probe, Sleep 2000, Probe, Sleep 2000, Probe])"
  by (simp add: poll_loop.simps functionGetLink_def code_arrives_env_def quiet_env_def
        js_trim_def is_space_def falsy_def)

section \<open>One attempt\<close>

lemma error_response_no_success: "\<not> is_success (error_response m)"
  by (simp add: is_success_def error_response_def)

lemma registration_refused_iff:
  "registration_refused e a b \<longleftrightarrow> \<not> is_success (regist_sendRequest e a b)"
  by (simp add: registration_refused_def regist_sendRequest_def read_response_def
        error_response_no_success split: io.splits option.splits)

lemma createAccount_try_register_failed:
  assumes "faker_username e = Inr raw" and "password args = Some pw"
    and "\<not> is_success (regist_sendRequest e
            (encryptToTargetHex (utf16 (make_email raw (pick_domain e (availableDomains args)))))
            (encryptToTargetHex (utf16 pw)))"
  shows "createAccount_try v e args = (Inr False, [Register])"
  using assms by (simp add: createAccount_try_def Let_def)

text \<open>The poll loop calls the probe at least once.\<close>

lemma poll_loop_probes:
  "probe_calls tr < probe_calls (snd (snd (poll_loop pc getLink attempts tr)))"
proof (induction pc getLink attempts tr rule: poll_loop.induct)
  case (1 pc getLink attempts tr)
  let ?tr2 = "if sleeps_after_last pc \<or> attempts + 1 < maxPollAttempts pc
              then (tr @ [Probe]) @ [Sleep (pollIntervalMs pc)] else tr @ [Probe]"
  have p: "probe_calls ?tr2 = probe_calls tr + 1" by (simp add: probe_calls_def)
  show ?case
  proof (cases "falsy (getLink attempts)")
    case False
    then show ?thesis by (subst poll_loop.simps) (simp add: probe_calls_def)
  next
    case True
    show ?thesis
    proof (cases "attempts + 1 < maxPollAttempts pc")
      case again: True
      from "1.IH"[OF refl refl True refl refl again]
      have "probe_calls ?tr2 < probe_calls (snd (snd (poll_loop pc getLink (attempts + 1) ?tr2)))" .
      with p True again show ?thesis
        by (subst poll_loop.simps) (simp add: Let_def)
    next
      case last: False
      with p True show ?thesis
        by (subst poll_loop.simps) (simp add: Let_def probe_calls_def)
    qed
  qed
qed

lemma createAccount_try_polls:
  assumes "faker_username e = Inr raw" and "password args = Some pw"
    and "is_success (regist_sendRequest e
            (encryptToTargetHex (utf16 (make_email raw (pick_domain e (availableDomains args)))))
            (encryptToTargetHex (utf16 pw)))"
  shows "0 < probe_calls (snd (createAccount v e args))"
proof -
  let ?email = "make_email raw (pick_domain e (availableDomains args))"
  let ?getLink = "functionGetLink e (at_index (split_on (CHR ''@'') ?email) 0)
                    (at_index (split_on (CHR ''@'') ?email) 1)"
  obtain code n tr where r: "poll_loop (poll_config_of v) ?getLink 0 [Register] = (code, n, tr)"
    by (cases "poll_loop (poll_config_of v) ?getLink 0 [Register]") blast
  from poll_loop_probes[of "[Register]" "poll_config_of v" ?getLink 0] r
  have p: "0 < probe_calls tr" by simp
  obtain verifyResult sent where
    "verify_sendRequest e (encryptToTargetHex (utf16 ?email)) (encryptToTargetHex (utf16 pw))
       (encryptToTargetHex (utf16 (the code))) = (verifyResult, sent)"
    by (cases "verify_sendRequest e (encryptToTargetHex (utf16 ?email)) (encryptToTargetHex (utf16 pw))
       (encryptToTargetHex (utf16 (the code)))") blast
  with assms r p show ?thesis
    by (cases code) (auto simp: createAccount_def createAccount_try_def Let_def probe_calls_def)
qed

text \<open>
  Claim C5, as the code has it. When the attempt reaches Phase 1 and the register
  call meets a transport error, a non-success HTTP status, an empty or unparsable
  body, or an answer whose \<open>message\<close> is not \<open>success\<close>, \<open>createAccount\<close> returns \<open>false\<close>
  right after the register call: the probe is never called and nothing else happens.
  In every other case, an answer with \<open>message: 'success'\<close> and an \<open>error\<close> field
  included, the attempt goes on to poll and calls the probe at least once.
\<close>

theorem phase1_failure_short_circuits:
  assumes "faker_username e = Inr raw" and "password args = Some pw"
  shows "(registration_refused e
            (encryptToTargetHex (utf16 (make_email raw (pick_domain e (availableDomains args)))))
            (encryptToTargetHex (utf16 pw)) \<longrightarrow>
          createAccount v e args = (Inr False, [Register]) \<and>
          probe_calls (snd (createAccount v e args)) = 0) \<and>
         (\<not> registration_refused e
            (encryptToTargetHex (utf16 (make_email raw (pick_domain e (availableDomains args)))))
            (encryptToTargetHex (utf16 pw)) \<longrightarrow>
          0 < probe_calls (snd (createAccount v e args)))"
proof (intro conjI impI)
  assume "registration_refused e
            (encryptToTargetHex (utf16 (make_email raw (pick_domain e (availableDomains args)))))
            (encryptToTargetHex (utf16 pw))"
  then have "\<not> is_success (regist_sendRequest e
            (encryptToTargetHex (utf16 (make_email raw (pick_domain e (availableDomains args)))))
            (encryptToTargetHex (utf16 pw)))"
    by (simp add: registration_refused_iff)
  from createAccount_try_register_failed[OF assms this]
  show c: "createAccount v e args = (Inr False, [Register])"
    by (simp add: createAccount_def)
  then show "probe_calls (snd (createAccount v e args)) = 0"
    by (simp add: probe_calls_def)
next
  assume "\<not> registration_refused e
            (encryptToTargetHex (utf16 (make_email raw (pick_domain e (availableDomains args)))))
            (encryptToTargetHex (utf16 pw))"
  then have "is_success (regist_sendRequest e
            (encryptToTargetHex (utf16 (make_email raw (pick_domain e (availableDomains args)))))
            (encryptToTargetHex (utf16 pw)))"
    by (simp add: registration_refused_iff)
  from createAccount_try_polls[OF assms this]
  show "0 < probe_calls (snd (createAccount v e args))" .
qed

theorem phase1_failure_short_circuits_witness:
  "registration_refused register_rejected_env
      (encryptToTargetHex (utf16 (make_email ''Alice.Smith99''
          (pick_domain register_rejected_env (availableDomains demo_args)))))
      (encryptToTargetHex (utf16 ''hunter2'')) \<and>
   createAccount TurboQueue register_rejected_env demo_args = (Inr False, [Register]) \<and>
   probe_calls (snd (createAccount TurboQueue register_rejected_env demo_args)) = 0 \<and>
   \<not> registration_refused quiet_env
      (encryptToTargetHex (utf16 (make_email ''Alice.Smith99''
          (pick_domain quiet_env (availableDomains demo_args)))))
      (encryptToTargetHex (utf16 ''hunter2'')) \<and>
   0 < probe_calls (snd (createAccount TurboQueue quiet_env demo_args))"
proof -
  have f: "faker_username register_rejected_env = Inr ''Alice.Smith99''"
    and f': "faker_username quiet_env = Inr ''Alice.Smith99''"
    by (simp_all add: register_rejected_env_def quiet_env_def)
  have p: "password demo_args = Some ''hunter2''"
    by (simp add: demo_args_def)
  have s: "registration_refused register_rejected_env a b" for a b
    by (simp add: registration_refused_def register_rejected_env_def quiet_env_def)
  have s': "\<not> registration_refused quiet_env a b" for a b
    by (simp add: registration_refused_def quiet_env_def ok_response_def success_json_def
          is_success_def js_trim_def is_space_def)
  from phase1_failure_short_circuits[OF f p, of TurboQueue, THEN conjunct1] s
    phase1_failure_short_circuits[OF f' p, of TurboQueue, THEN conjunct2] s'
  show ?thesis by blast
qed

lemma createAccount_try_poll:
  assumes "faker_username e = Inr raw" and "password args = Some pw"
    and "is_success (regist_sendRequest e
            (encryptToTargetHex (utf16 (make_email raw (pick_domain e (availableDomains args)))))
            (encryptToTargetHex (utf16 pw)))"
    and "poll_loop (poll_config_of v)
           (functionGetLink e
              (at_index (split_on (CHR ''@'') (make_email raw (pick_domain e (availableDomains args)))) 0)
              (at_index (split_on (CHR ''@'') (make_email raw (pick_domain e (availableDomains args)))) 1))
           0 [Register] = (code, n, tr)"
    and "falsy code"
  shows "createAccount_try v e args = (Inr False, tr)"
  using assms by (auto simp: createAccount_try_def Let_def falsy_def split: option.splits)

lemma createAccount_after_timeout:
  assumes "faker_username e = Inr raw" and "password args = Some pw"
    and "is_success (regist_sendRequest e
            (encryptToTargetHex (utf16 (make_email raw (pick_domain e (availableDomains args)))))
            (encryptToTargetHex (utf16 pw)))"
    and "\<forall>l d k. k < maxPollAttempts (poll_config_of v) \<longrightarrow>
            (case inbox e l d k of Throws m \<Rightarrow> True | Returns src \<Rightarrow> js_trim src = [])"
  shows "\<exists>rest. createAccount v e args = (Inr False, Register # rest) \<and>
           probe_calls rest = maxPollAttempts (poll_config_of v) \<and> Finalize \<notin> set rest"
proof -
  let ?email = "make_email raw (pick_domain e (availableDomains args))"
  let ?getLink = "functionGetLink e (at_index (split_on (CHR ''@'') ?email) 0)
                    (at_index (split_on (CHR ''@'') ?email) 1)"
  have pos: "0 < maxPollAttempts (poll_config_of v)" by (cases v) simp_all
  have empty: "\<forall>k. 0 \<le> k \<and> k < maxPollAttempts (poll_config_of v) \<longrightarrow> falsy (?getLink k)"
    using assms(4) by (auto simp: functionGetLink_def falsy_def split: io.splits)
  from poll_timeout[OF pos empty, of "[Register]"]
  obtain code tr rest where
    r: "poll_loop (poll_config_of v) ?getLink 0 [Register] = (code, maxPollAttempts (poll_config_of v), tr)"
    and f: "falsy code"
    and c: "probe_calls tr = probe_calls [Register] + (maxPollAttempts (poll_config_of v) - 0)"
    and t: "tr = [Register] @ rest" and n: "Finalize \<notin> set rest"
    by blast
  from createAccount_try_poll[OF assms(1,2,3) r f]
  have "createAccount v e args = (Inr False, tr)"
    by (simp add: createAccount_def)
  with c t n show ?thesis by (simp add: probe_calls_def)
qed

text \<open>
  Claim C7, as the code has it. When Phase 1 has succeeded and every one of the
  \<open>maxPollAttempts\<close> probes comes back empty or fails with a transport error,
  \<open>createAccount\<close> returns the plain \<open>false\<close> of every other failure, after exactly
  \<open>maxPollAttempts\<close> probe calls and without finalizing: \<open>functionGetLink\<close> catches the
  transport error and returns \<open>null\<close>, which the loop counts as one more empty probe.
\<close>

theorem poll_exhaustion_returns_false:
  assumes "faker_username e = Inr raw" and "password args = Some pw"
    and "is_success (regist_sendRequest e
            (encryptToTargetHex (utf16 (make_email raw (pick_domain e (availableDomains args)))))
            (encryptToTargetHex (utf16 pw)))"
    and "\<forall>l d k. k < maxPollAttempts (poll_config_of v) \<longrightarrow>
            (case inbox e l d k of Throws m \<Rightarrow> True | Returns src \<Rightarrow> js_trim src = [])"
  shows "fst (createAccount v e args) = Inr False \<and>
         probe_calls (snd (createAccount v e args)) = maxPollAttempts (poll_config_of v) \<and>
         Finalize \<notin> set (snd (createAccount v e args))"
proof -
  from createAccount_after_timeout[OF assms] obtain rest
    where r: "createAccount v e args = (Inr False, Register # rest)"
      and p: "probe_calls rest = maxPollAttempts (poll_config_of v)"
      and n: "Finalize \<notin> set rest" by blast
  from r have "fst (createAccount v e args) = Inr False" by simp
  moreover from r p have "probe_calls (snd (createAccount v e args)) = maxPollAttempts (poll_config_of v)"
    by (simp add: probe_calls_def)
  moreover from r n have "Finalize \<notin> set (snd (createAccount v e args))" by simp
  ultimately show ?thesis by blast
qed

theorem poll_exhaustion_returns_false_witness:
  "fst (createAccount TurboQueue inbox_fails_env demo_args) = Inr False \<and>
   probe_calls (snd (createAccount TurboQueue inbox_fails_env demo_args)) = 4 \<and>
   Finalize \<notin> set (snd (createAccount TurboQueue inbox_fails_env demo_args))"
proof -
  have f: "faker_username inbox_fails_env = Inr ''Alice.Smith99''"
    by (simp add: inbox_fails_env_def quiet_env_def)
  have p: "password demo_args = Some ''hunter2''"
    by (simp add: demo_args_def)
  have s: "is_success (regist_sendRequest inbox_fails_env
      (encryptToTargetHex (utf16 (make_email ''Alice.Smith99''
          (pick_domain inbox_fails_env (availableDomains demo_args)))))
      (encryptToTargetHex (utf16 ''hunter2'')))"
    by (simp add: regist_sendRequest_def read_response_def inbox_fails_env_def quiet_env_def
          ok_response_def success_json_def is_success_def js_trim_def is_space_def)
  have i: "\<forall>l d k. k < maxPollAttempts (poll_config_of TurboQueue) \<longrightarrow>
            (case inbox inbox_fails_env l d k of Throws m \<Rightarrow> True | Returns src \<Rightarrow> js_trim src = [])"
    by (simp add: inbox_fails_env_def quiet_env_def)
  from poll_exhaustion_returns_false[OF f p s i] show ?thesis by simp
qed

text \<open>
  The claim as written fails: a timeout after 12 empty probes, a timeout after 4 and
  a run of transport errors in the probe all give the same value \<open>false\<close>, which
  carries neither a count nor a failure kind.
\<close>

theorem timeout_is_plain_false:
  "fst (createAccount RaceQueue quiet_env demo_args) = Inr False \<and>
   probe_calls (snd (createAccount RaceQueue quiet_env demo_args)) = 12 \<and>
   fst (createAccount TurboQueue quiet_env demo_args) = Inr False \<and>
   probe_calls (snd (createAccount TurboQueue quiet_env demo_args)) = 4 \<and>
   fst (createAccount RaceQueue inbox_fails_env demo_args) = Inr False \<and>
   fst (createAccount RaceQueue inbox_fails_env demo_args) =
     fst (createAccount RaceQueue quiet_env demo_args)"
proof -
  have f: "faker_username quiet_env = Inr ''Alice.Smith99''"
    and f': "faker_username inbox_fails_env = Inr ''Alice.Smith99''"
    by (simp_all add: inbox_fails_env_def quiet_env_def)
  have p: "password demo_args = Some ''hunter2''"
    by (simp add: demo_args_def)
  have s: "is_success (regist_sendRequest quiet_env a b)" for a b
    by (simp add: regist_sendRequest_def read_response_def quiet_env_def
          ok_response_def success_json_def is_success_def js_trim_def is_space_def)
  have s': "is_success (regist_sendRequest inbox_fails_env a b)" for a b
    by (simp add: regist_sendRequest_def read_response_def inbox_fails_env_def quiet_env_def
          ok_response_def success_json_def is_success_def js_trim_def is_space_def)
  have i: "\<forall>l d k. k < maxPollAttempts (poll_config_of v) \<longrightarrow>
            (case inbox quiet_env l d k of Throws m \<Rightarrow> True | Returns src \<Rightarrow> js_trim src = [])" for v
    by (simp add: quiet_env_def js_trim_def is_space_def)
  have i': "\<forall>l d k. k < maxPollAttempts (poll_config_of v) \<longrightarrow>
            (case inbox inbox_fails_env l d k of Throws m \<Rightarrow> True | Returns src \<Rightarrow> js_trim src = [])" for v
    by (simp add: inbox_fails_env_def quiet_env_def)
  from createAccount_after_timeout[OF f p s i, of RaceQueue] obtain ra
    where a: "createAccount RaceQueue quiet_env demo_args = (Inr False, Register # ra)"
      and a': "probe_calls ra = maxPollAttempts (poll_config_of RaceQueue)" by blast
  from createAccount_after_timeout[OF f p s i, of TurboQueue] obtain rb
    where b: "createAccount TurboQueue quiet_env demo_args = (Inr False, Register # rb)"
      and b': "probe_calls rb = maxPollAttempts (poll_config_of TurboQueue)" by blast
  from createAccount_after_timeout[OF f' p s' i', of RaceQueue] obtain rc
    where c: "createAccount RaceQueue inbox_fails_env demo_args = (Inr False, Register # rc)" by blast
  from a a' b b' c show ?thesis by (simp add: probe_calls_def)
qed

text \<open>
  The claim as written fails on the \<open>explicit error field\<close>: \<open>createAccount\<close> looks at the
  \<open>message\<close> of the answer only. When the register call is answered with
  \<open>{"message":"success","error":"rate limited"}\<close> the attempt goes on, and with an
  empty inbox it calls the probe 4 times (turbo queue) or 12 times (race queue).
\<close>

theorem error_field_does_not_stop_attempt:
  "phase1_signals_failure success_with_error_env
      (encryptToTargetHex (utf16 (make_email ''Alice.Smith99''
          (pick_domain success_with_error_env (availableDomains demo_args)))))
      (encryptToTargetHex (utf16 ''hunter2'')) \<and>
   probe_calls (snd (createAccount TurboQueue success_with_error_env demo_args)) = 4 \<and>
   probe_calls (snd (createAccount RaceQueue success_with_error_env demo_args)) = 12"
proof -
  have f: "faker_username success_with_error_env = Inr ''Alice.Smith99''"
    by (simp add: success_with_error_env_def quiet_env_def)
  have p: "password demo_args = Some ''hunter2''"
    by (simp add: demo_args_def)
  have h: "phase1_signals_failure success_with_error_env a b" for a b
    by (simp add: phase1_signals_failure_def success_with_error_env_def quiet_env_def
          ok_response_def success_with_error_json_def has_error_field_def js_trim_def is_space_def)
  have s: "is_success (regist_sendRequest success_with_error_env a b)" for a b
    by (simp add: regist_sendRequest_def read_response_def success_with_error_env_def quiet_env_def
          ok_response_def success_with_error_json_def is_success_def js_trim_def is_space_def)
  have i: "\<forall>l d k. k < maxPollAttempts (poll_config_of v) \<longrightarrow>
            (case inbox success_with_error_env l d k of Throws m \<Rightarrow> True | Returns src \<Rightarrow> js_trim src = [])" for v
    by (simp add: success_with_error_env_def quiet_env_def js_trim_def is_space_def)
  from createAccount_after_timeout[OF f p s i, of TurboQueue] obtain ra
    where a: "createAccount TurboQueue success_with_error_env demo_args = (Inr False, Register # ra)"
      and a': "probe_calls ra = maxPollAttempts (poll_config_of TurboQueue)" by blast
  from createAccount_after_timeout[OF f p s i, of RaceQueue] obtain rb
    where b: "createAccount RaceQueue success_with_error_env demo_args = (Inr False, Register # rb)"
      and b': "probe_calls rb = maxPollAttempts (poll_config_of RaceQueue)" by blast
  from a a' b b' h show ?thesis by (simp add: probe_calls_def)
qed

text \<open>
  As long as \<open>faker\<close> does not throw \<open>null\<close> or \<open>undefined\<close>, \<open>createAccount\<close> settles to a
  boolean whatever the collaborators do: every other exception of the \<open>try\<close> block is
  turned into \<open>false\<close> by the handler.
\<close>

lemma createAccount_try_nullish:
  "fst (createAccount_try v e args) = Inl ThrownNullish \<Longrightarrow> faker_username e = Inl ThrownNullish"
  by (auto simp: createAccount_try_def Let_def split: sum.splits option.splits prod.splits if_splits)

lemma createAccount_settles:
  assumes "faker_username e \<noteq> Inl ThrownNullish"
  shows "\<exists>b. fst (createAccount v e args) = Inr b"
proof (cases "createAccount_try v e args")
  case (Pair r tr)
  show ?thesis
  proof (cases r)
    case (Inl t)
    with Pair assms createAccount_try_nullish[of v e args] have "t \<noteq> ThrownNullish" by auto
    with Pair Inl show ?thesis by (cases t) (auto simp: createAccount_def)
  next
    case (Inr b)
    with Pair show ?thesis by (auto simp: createAccount_def)
  qed
qed

lemma createAccount_catches_error:
  "createAccount_try TurboQueue faker_throws_env demo_args =
     (Inl (ThrownValue ''locale data missing''), []) \<and>
   createAccount TurboQueue faker_throws_env demo_args = (Inr False, [])"
  by (simp add: createAccount_def createAccount_try_def faker_throws_env_def quiet_env_def)

text \<open>
  Claim C6: for every behaviour of the collaborators \<open>createAccount\<close> returns a boolean
  and lets no exception through to the queue that launched it. The code breaks this
  when \<open>faker.internet.username()\<close> throws \<open>null\<close>: the handler of \<open>createAccount\<close> reads
  \<open>error.message\<close>, which throws a \<open>TypeError\<close> out of the handler, and the promise is
  rejected, in the turbo script and in the race script alike.
\<close>

theorem createAccount_rejects_thrown_null:
  "createAccount TurboQueue faker_throws_null_env demo_args =
     (Inl ''Cannot read properties of null'', []) \<and>
   createAccount RaceQueue faker_throws_null_env demo_args =
     (Inl ''Cannot read properties of null'', [])"
  by (simp add: createAccount_def createAccount_try_def faker_throws_null_env_def quiet_env_def)

section \<open>The orchestrators: launching\<close>

lemma launch_while_closed:
  "launch_while cfg s =
     (if successCount s < loopCount cfg
      then s\<lparr>attemptNumber := attemptNumber s + room cfg s,
             inFlight := inFlight s @ [attemptNumber s + 1 ..< attemptNumber s + room cfg s + 1]\<rparr>
      else s)"
proof (induction cfg s rule: launch_while.induct)
  case (1 cfg s)
  show ?case
  proof (cases "length (inFlight s) < MAX_CONCURRENT_REQUESTS cfg \<and> attemptNumber s < maxAttempts cfg \<and>
         successCount s < loopCount cfg")
    case True
    define a where "a = attemptNumber s"
    define r where "r = room cfg s"
    define r' where "r' = room cfg (launch s)"
    have r: "r = r' + 1"
      using True by (auto simp: r_def r'_def room_def launch_def)
    have u: "[a + 1 ..< a + r + 1] = (a + 1) # [a + 1 + 1 ..< a + 1 + r' + 1]"
      unfolding r by (simp add: upt_conv_Cons)
    have e: "a + 1 + r' = a + r"
      unfolding r by simp
    have s: "successCount (launch s) < loopCount cfg"
      using True by (simp add: launch_def)
    have "launch_while cfg s = launch_while cfg (launch s)"
      using True by (subst launch_while.simps) simp
    also have "\<dots> = (launch s)\<lparr>attemptNumber := attemptNumber (launch s) + r',
             inFlight := inFlight (launch s) @
               [attemptNumber (launch s) + 1 ..< attemptNumber (launch s) + r' + 1]\<rparr>"
      unfolding r'_def using "1.IH"[OF True] s by simp
    also have "\<dots> = s\<lparr>attemptNumber := a + 1 + r',
             inFlight := (inFlight s @ [a + 1]) @ [a + 1 + 1 ..< a + 1 + r' + 1]\<rparr>"
      by (simp add: launch_def a_def)
    also have "\<dots> = s\<lparr>attemptNumber := a + r, inFlight := inFlight s @ [a + 1 ..< a + r + 1]\<rparr>"
      unfolding u e by simp
    finally show ?thesis using True unfolding a_def r_def by simp
  next
    case False
    then have "launch_while cfg s = s"
      by (subst launch_while.simps) (rule if_not_P)
    moreover from False have "successCount s < loopCount cfg \<Longrightarrow> room cfg s = 0"
      by (auto simp: room_def)
    ultimately show ?thesis by simp
  qed
qed

section \<open>Limits at every observable instant\<close>

lemma within_limits_launch_states:
  "within_limits cfg s \<Longrightarrow> \<forall>t \<in> set (launch_while_states cfg s). within_limits cfg t"
proof (induction cfg s rule: launch_while_states.induct)
  case (1 cfg s)
  show ?case
  proof (cases "length (inFlight s) < MAX_CONCURRENT_REQUESTS cfg \<and> attemptNumber s < maxAttempts cfg \<and>
         successCount s < loopCount cfg")
    case True
    with 1(2) have l: "within_limits cfg (launch s)"
      by (simp add: within_limits_def launch_def)
    from "1.IH"[OF True l] l True show ?thesis
      by (subst launch_while_states.simps) simp
  next
    case False
    then have "launch_while_states cfg s = []"
      by (subst launch_while_states.simps) (rule if_not_P)
    then show ?thesis by simp
  qed
qed

lemma launch_while_last: "launch_while cfg s = last (s # launch_while_states cfg s)"
proof (induction cfg s rule: launch_while.induct)
  case (1 cfg s)
  show ?case
  proof (cases "length (inFlight s) < MAX_CONCURRENT_REQUESTS cfg \<and> attemptNumber s < maxAttempts cfg \<and>
         successCount s < loopCount cfg")
    case True
    have "launch_while cfg s = launch_while cfg (launch s)"
      using True by (subst launch_while.simps) simp
    moreover have "launch_while_states cfg s = launch s # launch_while_states cfg (launch s)"
      using True by (subst launch_while_states.simps) simp
    ultimately show ?thesis using "1.IH"[OF True] by simp
  next
    case False
    then have "launch_while cfg s = s"
      by (subst launch_while.simps) (rule if_not_P)
    moreover from False have "launch_while_states cfg s = []"
      by (subst launch_while_states.simps) (rule if_not_P)
    ultimately show ?thesis by simp
  qed
qed

lemma within_limits_launch_while: "within_limits cfg s \<Longrightarrow> within_limits cfg (launch_while cfg s)"
proof -
  assume a: "within_limits cfg s"
  have "last (s # launch_while_states cfg s) \<in> set (s # launch_while_states cfg s)"
    by (rule last_in_set) simp
  with within_limits_launch_states[OF a] a show ?thesis
    unfolding launch_while_last by auto
qed

lemma within_limits_launchNext_states:
  "within_limits cfg s \<Longrightarrow> \<forall>t \<in> set (launchNext_states cfg s). within_limits cfg t"
  using within_limits_launch_states[of cfg s]
  by (simp add: launchNext_states_def within_limits_def)

lemma within_limits_launchNext: "within_limits cfg s \<Longrightarrow> within_limits cfg (launchNext cfg s)"
  using within_limits_launch_while[of cfg s]
  by (simp add: launchNext_def within_limits_def)

lemma length_removeAll_le: "length (removeAll i xs) \<le> length xs"
  by (induction xs) (auto simp: le_SucI)

lemma within_limits_settled: "within_limits cfg s \<Longrightarrow> within_limits cfg (settled i b s)"
  by (auto simp: within_limits_def settled_def intro: order_trans[OF length_removeAll_le])

lemma within_limits_turbo_states_from:
  "within_limits cfg s \<Longrightarrow> \<forall>t \<in> set (turbo_states_from cfg outcome picks s). within_limits cfg t"
proof (induction picks arbitrary: s)
  case Nil
  then show ?case by simp
next
  case (Cons p ps)
  let ?i = "pick p (inFlight s)"
  let ?s1 = "settled ?i (outcome ?i) s"
  from Cons.prems have s1: "within_limits cfg ?s1" by (rule within_limits_settled)
  from s1 have n: "within_limits cfg (launchNext cfg ?s1)" by (rule within_limits_launchNext)
  from Cons.IH[OF n] within_limits_launchNext_states[OF s1] s1
  show ?case by (auto simp: Let_def)
qed

lemma race_limit_queue_states:
  "length (inFlight s) \<le> concurrency \<Longrightarrow>
   \<forall>t \<in> set (queueNext_states concurrency loops s). length (inFlight t) \<le> concurrency"
proof (induction concurrency loops s rule: queueNext_states.induct)
  case (1 concurrency loops s)
  show ?case
  proof (cases "length (inFlight s) < concurrency \<and> successCount s < loops")
    case True
    then have l: "length (inFlight (launch s)) \<le> concurrency"
      by (simp add: launch_def)
    from "1.IH"[OF True l] l True show ?thesis
      by (subst queueNext_states.simps) simp
  next
    case False
    then have "queueNext_states concurrency loops s = []"
      by (subst queueNext_states.simps) (rule if_not_P)
    then show ?thesis by simp
  qed
qed

lemma race_limit_queueNext:
  "length (inFlight s) \<le> concurrency \<Longrightarrow> length (inFlight (queueNext concurrency loops s)) \<le> concurrency"
proof (induction concurrency loops s rule: queueNext.induct)
  case (1 concurrency loops s)
  show ?case
  proof (cases "length (inFlight s) < concurrency \<and> successCount s < loops")
    case True
    then have l: "length (inFlight (launch s)) \<le> concurrency"
      by (simp add: launch_def)
    from "1.IH"[OF True l] True show ?thesis
      by (subst queueNext.simps) simp
  next
    case False
    then have "queueNext concurrency loops s = s"
      by (subst queueNext.simps) (rule if_not_P)
    with 1(2) show ?thesis by simp
  qed
qed

lemma race_limit_states_from:
  "length (inFlight s) \<le> concurrency \<Longrightarrow>
   \<forall>t \<in> set (race_states_from concurrency loops outcome picks s). length (inFlight t) \<le> concurrency"
proof (induction picks arbitrary: s)
  case Nil
  then show ?case by simp
next
  case (Cons p ps)
  let ?i = "pick p (inFlight s)"
  let ?s1 = "settled ?i (outcome ?i) s"
  from Cons.prems
  have s1: "length (inFlight ?s1) \<le> concurrency"
    by (auto simp: settled_def intro: order_trans[OF length_removeAll_le])
  from s1 have n: "length (inFlight (queueNext concurrency loops ?s1)) \<le> concurrency"
    by (rule race_limit_queueNext)
  from Cons.IH[OF n] race_limit_queue_states[OF s1] s1
  show ?case by (auto simp: Let_def)
qed

lemma batch_states_limits:
  "attemptNumber s + 1 = i \<Longrightarrow> length (inFlight s) = attemptNumber s \<Longrightarrow>
   \<forall>t \<in> set (batch_states loops i s). attemptNumber t \<le> loops \<and> length (inFlight t) = attemptNumber t"
proof (induction loops i s rule: batch_states.induct)
  case (1 loops i s)
  show ?case
  proof (cases "i \<le> loops")
    case True
    have a: "attemptNumber (launch s) + 1 = i + 1" and b: "length (inFlight (launch s)) = attemptNumber (launch s)"
      using 1(2,3) by (simp_all add: launch_def)
    from "1.IH"[OF True a b] True 1(2) b show ?thesis
      by (subst batch_states.simps) (simp add: launch_def)
  next
    case False
    then have "batch_states loops i s = []"
      by (subst batch_states.simps) (rule if_not_P)
    then show ?thesis by simp
  qed
qed

text \<open>
  In every run of the turbo queue, at every observable instant (the start, after each
  launch, after each completion, before and after the promise resolves), the number
  of attempts launched is at most \<open>maxAttempts\<close> and the number in flight is at most
  \<open>MAX_CONCURRENT_REQUESTS\<close>. The race queue keeps the number in flight within its
  limit; the batch launcher launches \<open>loopCount\<close> attempts, all in flight at once.
\<close>

theorem limits_hold_at_every_instant:
  "(\<forall>s \<in> set (turbo_states cfg outcome picks).
       attemptNumber s \<le> maxAttempts cfg \<and> length (inFlight s) \<le> MAX_CONCURRENT_REQUESTS cfg) \<and>
   (\<forall>s \<in> set (race_states concurrency loops outcome picks). length (inFlight s) \<le> concurrency) \<and>
   (\<forall>s \<in> set (batch_states loops 1 initial). attemptNumber s \<le> loops \<and> length (inFlight s) \<le> loops)"
proof (intro conjI)
  have i: "within_limits cfg initial" by (simp add: within_limits_def initial_def)
  from i have n: "within_limits cfg (launchNext cfg initial)" by (rule within_limits_launchNext)
  from i within_limits_launchNext_states[OF i] within_limits_turbo_states_from[OF n]
  have "\<forall>s \<in> set (turbo_states cfg outcome picks). within_limits cfg s"
    by (auto simp: turbo_states_def)
  then show "\<forall>s \<in> set (turbo_states cfg outcome picks).
       attemptNumber s \<le> maxAttempts cfg \<and> length (inFlight s) \<le> MAX_CONCURRENT_REQUESTS cfg"
    by (simp add: within_limits_def)
next
  have i: "length (inFlight initial) \<le> concurrency" by (simp add: initial_def)
  from i have n: "length (inFlight (queueNext concurrency loops initial)) \<le> concurrency"
    by (rule race_limit_queueNext)
  from i race_limit_queue_states[OF i] race_limit_states_from[OF n]
  show "\<forall>s \<in> set (race_states concurrency loops outcome picks). length (inFlight s) \<le> concurrency"
    by (auto simp: race_states_def)
next
  have "\<forall>t \<in> set (batch_states loops 1 initial). attemptNumber t \<le> loops \<and> length (inFlight t) = attemptNumber t"
    by (rule batch_states_limits) (simp_all add: initial_def)
  then show "\<forall>s \<in> set (batch_states loops 1 initial). attemptNumber s \<le> loops \<and> length (inFlight s) \<le> loops"
    by auto
qed

theorem limits_hold_at_every_instant_witness:
  "list_all (\<lambda>s. attemptNumber s \<le> 10 \<and> length (inFlight s) \<le> 2)
     (turbo_states scenario_config script_345 [0, 0, 0, 0, 0, 0]) \<and>
   turbo_states scenario_config script_345 [0, 0, 0, 0, 0, 0] ! 10 =
     \<lparr>attemptNumber = 6, successCount = 2, inFlight = [5, 6], resolved = False\<rparr> \<and>
   list_all (\<lambda>s. length (inFlight s) \<le> 2) (race_states 2 3 script_345 [0, 0, 0, 0, 0, 0]) \<and>
   race_states 2 3 script_345 [0, 0, 0, 0, 0, 0] ! 10 =
     \<lparr>attemptNumber = 6, successCount = 2, inFlight = [5, 6], resolved = False\<rparr> \<and>
   list_all (\<lambda>s. attemptNumber s \<le> 3 \<and> length (inFlight s) \<le> 3) (batch_states 3 1 initial) \<and>
   batch_states 3 1 initial ! 2 =
     \<lparr>attemptNumber = 3, successCount = 0, inFlight = [1, 2, 3], resolved = False\<rparr>"
proof -
  note t = limits_hold_at_every_instant[of scenario_config script_345 "[0, 0, 0, 0, 0, 0]" 2 3]
  have c: "maxAttempts scenario_config = 10" "MAX_CONCURRENT_REQUESTS scenario_config = 2"
    by (simp_all add: scenario_config_def)
  have a: "turbo_states scenario_config script_345 [0, 0, 0, 0, 0, 0] ! 10 =
     \<lparr>attemptNumber = 6, successCount = 2, inFlight = [5, 6], resolved = False\<rparr>"
    by code_simp
  have b: "race_states 2 3 script_345 [0, 0, 0, 0, 0, 0] ! 10 =
     \<lparr>attemptNumber = 6, successCount = 2, inFlight = [5, 6], resolved = False\<rparr>"
    by code_simp
  have d: "batch_states 3 1 initial ! 2 =
     \<lparr>attemptNumber = 3, successCount = 0, inFlight = [1, 2, 3], resolved = False\<rparr>"
    by code_simp
  from t a b d show ?thesis
    unfolding list_all_iff c by blast
qed

text \<open>
  With the limits a fractional \<open>config.batchSize\<close> of 2.5 gives, the turbo queue has 3
  attempts in flight at the start, and has launched 4 after the first completion.
\<close>

lemma fractional_limits_admit_one_more:
  "turbo_states \<lparr>loopCount = 1, BATCH_SIZE = 3, MAX_CONCURRENT_REQUESTS = 3, maxAttempts = 4\<rparr>
     all_fail [0] ! 3 =
     \<lparr>attemptNumber = 3, successCount = 0, inFlight = [1, 2, 3], resolved = False\<rparr> \<and>
   turbo_states \<lparr>loopCount = 1, BATCH_SIZE = 3, MAX_CONCURRENT_REQUESTS = 3, maxAttempts = 4\<rparr>
     all_fail [0] ! 5 =
     \<lparr>attemptNumber = 4, successCount = 0, inFlight = [2, 3, 4], resolved = False\<rparr>"
  by code_simp

text \<open>
  Claim C1: in every run, at every observable instant, the number of attempts launched
  is at most \<open>maxAttempts\<close> and the number in flight is at most the concurrency limit.
  The race queue breaks the first bound: it has no attempt budget at all, and
  \<open>queueNext\<close> launches a new attempt after every failure. With one account asked for,
  a concurrency of 1 and every attempt failing, it never has more than one attempt in
  flight, but after 20 completions it has launched 21 attempts, where the budget of
  the turbo queue for the same prompts is \<open>max (1 * 3) (1 + 1) = 3\<close>.
\<close>

theorem race_queue_exceeds_budget:
  "list_all (\<lambda>s. length (inFlight s) \<le> 1) (race_states 1 1 all_fail (replicate 20 0)) \<and>
   last (race_states 1 1 all_fail (replicate 20 0)) =
     \<lparr>attemptNumber = 21, successCount = 0, inFlight = [21], resolved = False\<rparr> \<and>
   max (1 * 3) (1 + 1) < attemptNumber (last (race_states 1 1 all_fail (replicate 20 0)))"
proof -
  have a: "list_all (\<lambda>s. length (inFlight s) \<le> 1) (race_states 1 1 all_fail (replicate 20 0))"
    by code_simp
  have b: "last (race_states 1 1 all_fail (replicate 20 0)) =
     \<lparr>attemptNumber = 21, successCount = 0, inFlight = [21], resolved = False\<rparr>"
    by code_simp
  from a b show ?thesis by simp
qed

section \<open>Termination of a run\<close>

lemma launchNext_closed:
  "launchNext cfg s =
     (if loopCount cfg \<le> successCount s \<or> (maxAttempts cfg \<le> attemptNumber s \<and> inFlight s = [])
      then s\<lparr>resolved := True\<rparr>
      else s\<lparr>attemptNumber := attemptNumber s + room cfg s,
             inFlight := inFlight s @ [attemptNumber s + 1 ..< attemptNumber s + room cfg s + 1]\<rparr>)"
  by (auto simp: launchNext_def launch_while_closed)

lemma pick_mem: "xs \<noteq> [] \<Longrightarrow> pick p xs \<in> set xs"
  by (simp add: pick_def)

lemma pick_any: "i \<in> set xs \<Longrightarrow> \<exists>p < length xs. pick p xs = i"
  by (auto simp: pick_def in_set_conv_nth)

lemma well_formed_settled: "well_formed s \<Longrightarrow> well_formed (settled i b s)"
  by (auto simp: well_formed_def settled_def distinct_removeAll)

lemma well_formed_launchNext: "well_formed s \<Longrightarrow> well_formed (launchNext cfg s)"
  by (auto simp: well_formed_def launchNext_closed)

lemma stable_launchNext:
  assumes "1 \<le> MAX_CONCURRENT_REQUESTS cfg" and "within_limits cfg s" and "\<not> resolved s"
  shows "stable cfg (launchNext cfg s)"
proof (cases "loopCount cfg \<le> successCount s \<or> (maxAttempts cfg \<le> attemptNumber s \<and> inFlight s = [])")
  case True
  then show ?thesis by (simp add: launchNext_closed stable_def)
next
  case False
  then have c: "successCount s < loopCount cfg" by simp
  from False have d: "attemptNumber s < maxAttempts cfg \<or> inFlight s \<noteq> []" by auto
  have full: "length (inFlight s) + room cfg s = MAX_CONCURRENT_REQUESTS cfg \<or>
              attemptNumber s + room cfg s = maxAttempts cfg"
    using assms(2) by (auto simp: room_def within_limits_def min_def)
  have nonempty: "inFlight s = [] \<Longrightarrow> 0 < room cfg s"
    using d assms(1) by (auto simp: room_def)
  from False c full nonempty assms(3) show ?thesis
    by (auto simp: launchNext_closed stable_def)
qed

lemma completions_left_launchNext:
  "within_limits cfg s \<Longrightarrow> completions_left cfg (launchNext cfg s) = completions_left cfg s"
  by (auto simp: launchNext_closed completions_left_def room_def within_limits_def)

lemma length_removeAll_distinct:
  "distinct xs \<Longrightarrow> i \<in> set xs \<Longrightarrow> length (removeAll i xs) + 1 = length xs"
  by (induction xs) auto

lemma completions_left_settled:
  "well_formed s \<Longrightarrow> i \<in> set (inFlight s) \<Longrightarrow>
   completions_left cfg (settled i b s) + 1 = completions_left cfg s"
  using length_removeAll_distinct[of "inFlight s" i]
  by (simp add: completions_left_def settled_def well_formed_def)

lemma run_turbo_resolves:
  assumes "1 \<le> MAX_CONCURRENT_REQUESTS cfg"
  shows "\<lbrakk>well_formed s; within_limits cfg s; stable cfg s; completions_left cfg s \<le> length picks\<rbrakk>
         \<Longrightarrow> \<exists>t. run_turbo cfg outcome picks s = Resolved t \<and> resolved t \<and>
                 within_limits cfg t \<and> stable cfg t"
proof (induction picks arbitrary: s)
  case Nil
  then have "inFlight s = []" by (simp add: completions_left_def)
  with Nil have "resolved s" by (auto simp: stable_def split: if_splits)
  with Nil show ?case by simp
next
  case (Cons p ps)
  show ?case
  proof (cases "resolved s")
    case True
    with Cons.prems show ?thesis by simp
  next
    case False
    with Cons.prems have ne: "inFlight s \<noteq> []" by (simp add: stable_def)
    let ?i = "pick p (inFlight s)"
    let ?s1 = "settled ?i (outcome ?i) s"
    let ?s2 = "on_settled cfg ?i (outcome ?i) s"
    from ne have mem: "?i \<in> set (inFlight s)" by (rule pick_mem)
    have r1: "\<not> resolved ?s1" using False by (simp add: settled_def)
    have w1: "well_formed ?s1" using Cons.prems(1) by (rule well_formed_settled)
    have l1: "within_limits cfg ?s1" using Cons.prems(2) by (rule within_limits_settled)
    have w2: "well_formed ?s2" unfolding on_settled_def using w1 by (rule well_formed_launchNext)
    have l2: "within_limits cfg ?s2" unfolding on_settled_def using l1 by (rule within_limits_launchNext)
    have s2: "stable cfg ?s2" unfolding on_settled_def using assms l1 r1 by (rule stable_launchNext)
    have "completions_left cfg ?s2 + 1 = completions_left cfg s"
      unfolding on_settled_def
      using completions_left_launchNext[OF l1] completions_left_settled[OF Cons.prems(1) mem]
      by simp
    with Cons.prems(4) have c2: "completions_left cfg ?s2 \<le> length ps" by simp
    from Cons.IH[OF w2 l2 s2 c2] False ne show ?thesis by (simp add: Let_def)
  qed
qed

lemma turbo_start:
  assumes "1 \<le> MAX_CONCURRENT_REQUESTS cfg"
  shows "well_formed (launchNext cfg initial) \<and> within_limits cfg (launchNext cfg initial) \<and>
         stable cfg (launchNext cfg initial) \<and>
         completions_left cfg (launchNext cfg initial) = maxAttempts cfg"
proof -
  have w: "well_formed initial" by (simp add: well_formed_def initial_def)
  have l: "within_limits cfg initial" by (simp add: within_limits_def initial_def)
  have r: "\<not> resolved initial" by (simp add: initial_def)
  have c: "completions_left cfg initial = maxAttempts cfg"
    by (simp add: completions_left_def initial_def)
  from well_formed_launchNext[OF w] within_limits_launchNext[OF l] stable_launchNext[OF assms l r]
    completions_left_launchNext[OF l] c
  show ?thesis by simp
qed

lemma no_launch_after_resolve:
  assumes "stable cfg s" and "resolved s"
  shows "attemptNumber (on_settled cfg i b s) = attemptNumber s \<and> resolved (on_settled cfg i b s)"
proof -
  from assms have "loopCount cfg \<le> successCount s \<or> (maxAttempts cfg \<le> attemptNumber s \<and> inFlight s = [])"
    by (simp add: stable_def)
  then have "loopCount cfg \<le> successCount (settled i b s) \<or>
             (maxAttempts cfg \<le> attemptNumber (settled i b s) \<and> inFlight (settled i b s) = [])"
    by (auto simp: settled_def)
  then show ?thesis
    by (simp add: on_settled_def launchNext_def) (simp add: settled_def)
qed

lemma stable_after_resolve:
  assumes "stable cfg s" and "resolved s"
  shows "stable cfg (on_settled cfg i b s)"
proof -
  from assms have "loopCount cfg \<le> successCount s \<or> (maxAttempts cfg \<le> attemptNumber s \<and> inFlight s = [])"
    by (simp add: stable_def)
  then have c: "loopCount cfg \<le> successCount (settled i b s) \<or>
             (maxAttempts cfg \<le> attemptNumber (settled i b s) \<and> inFlight (settled i b s) = [])"
    by (auto simp: settled_def)
  then have "on_settled cfg i b s = (settled i b s)\<lparr>resolved := True\<rparr>"
    by (simp add: on_settled_def launchNext_def)
  with c show ?thesis by (simp add: stable_def)
qed

lemma no_launch_after_resolve_all:
  assumes "stable cfg s" and "resolved s"
  shows "attemptNumber (foldl (\<lambda>t (i, b). on_settled cfg i b t) s later) = attemptNumber s \<and>
         resolved (foldl (\<lambda>t (i, b). on_settled cfg i b t) s later)"
  using assms
proof (induction later arbitrary: s)
  case Nil
  then show ?case by simp
next
  case (Cons c later)
  obtain i b where c: "c = (i, b)" by (cases c)
  from no_launch_after_resolve[OF Cons.prems, of i b] stable_after_resolve[OF Cons.prems, of i b]
  have n: "attemptNumber (on_settled cfg i b s) = attemptNumber s"
    and r: "resolved (on_settled cfg i b s)" and st: "stable cfg (on_settled cfg i b s)" by simp_all
  from Cons.IH[OF st r] n show ?case by (simp add: c)
qed

lemma turbo_reaches_resolution:
  assumes "1 \<le> MAX_CONCURRENT_REQUESTS cfg" and "maxAttempts cfg \<le> length picks"
  shows "\<exists>t. run_turbo cfg outcome picks (launchNext cfg initial) = Resolved t \<and> resolved t \<and>
             within_limits cfg t \<and> stable cfg t"
  using turbo_start[OF assms(1)] assms(2)
  by (intro run_turbo_resolves[OF assms(1)]) simp_all

lemma queueNext_all_fail:
  "\<lbrakk>successCount s = 0; 1 \<le> loops; 1 \<le> concurrency\<rbrakk>
   \<Longrightarrow> successCount (queueNext concurrency loops s) = 0 \<and> inFlight (queueNext concurrency loops s) \<noteq> []"
proof (induction concurrency loops s rule: queueNext.induct)
  case (1 concurrency loops s)
  show ?case
  proof (cases "length (inFlight s) < concurrency \<and> successCount s < loops")
    case True
    have "successCount (launch s) = 0" using 1(2) by (simp add: launch_def)
    from "1.IH"[OF True this 1(3,4)] True show ?thesis
      by (subst (1 2) queueNext.simps) simp
  next
    case False
    then have "queueNext concurrency loops s = s"
      by (subst queueNext.simps) (rule if_not_P)
    moreover from False 1(2,3,4) have "inFlight s \<noteq> []" by auto
    ultimately show ?thesis using 1(2) by simp
  qed
qed

lemma race_all_fail_never_returns:
  assumes "1 \<le> loops" and "1 \<le> concurrency"
  shows "successCount s = 0 \<Longrightarrow> \<exists>t. race_loop concurrency loops all_fail picks s = Pending t"
proof (induction picks arbitrary: s)
  case Nil
  let ?s1 = "if inFlight s = [] then queueNext concurrency loops s else s"
  from queueNext_all_fail[OF Nil assms] have "inFlight ?s1 \<noteq> []" by simp
  with Nil assms show ?case by (simp add: Let_def)
next
  case (Cons p ps)
  let ?s1 = "if inFlight s = [] then queueNext concurrency loops s else s"
  let ?i = "pick p (inFlight ?s1)"
  let ?s2 = "settled ?i (all_fail ?i) ?s1"
  from queueNext_all_fail[OF Cons.prems assms] have ne: "inFlight ?s1 \<noteq> []" by simp
  from queueNext_all_fail[OF Cons.prems assms] Cons.prems have "successCount ?s1 = 0" by simp
  then have "successCount ?s2 = 0" by (simp add: settled_def all_fail_def)
  from queueNext_all_fail[OF this assms] have "successCount (queueNext concurrency loops ?s2) = 0"
    by simp
  from Cons.IH[OF this] obtain t where
    "race_loop concurrency loops all_fail ps (queueNext concurrency loops ?s2) = Pending t" by blast
  with ne Cons.prems assms show ?case by (simp add: Let_def)
qed

lemma queueNext_successCount: "successCount (queueNext concurrency loops s) = successCount s"
proof (induction concurrency loops s rule: queueNext.induct)
  case (1 concurrency loops s)
  show ?case
  proof (cases "length (inFlight s) < concurrency \<and> successCount s < loops")
    case True
    from "1.IH"[OF True] True show ?thesis
      by (subst queueNext.simps) (simp add: launch_def)
  next
    case False
    then have "queueNext concurrency loops s = s"
      by (subst queueNext.simps) (rule if_not_P)
    then show ?thesis by simp
  qed
qed

lemma queueNext_nonempty:
  "\<lbrakk>successCount s < loops; 1 \<le> concurrency\<rbrakk> \<Longrightarrow> inFlight (queueNext concurrency loops s) \<noteq> []"
proof (induction concurrency loops s rule: queueNext.induct)
  case (1 concurrency loops s)
  show ?case
  proof (cases "length (inFlight s) < concurrency \<and> successCount s < loops")
    case True
    have "successCount (launch s) < loops" using 1(2) by (simp add: launch_def)
    from "1.IH"[OF True this 1(3)] True show ?thesis
      by (subst queueNext.simps) simp
  next
    case False
    then have "queueNext concurrency loops s = s"
      by (subst queueNext.simps) (rule if_not_P)
    moreover from False 1(2,3) have "inFlight s \<noteq> []" by auto
    ultimately show ?thesis by simp
  qed
qed

lemma settle_all_successCount:
  "successCount s \<le> successCount (foldl (\<lambda>t i. settled i (outcome i) t) s xs)"
proof (induction xs arbitrary: s)
  case Nil
  then show ?case by simp
next
  case (Cons x xs)
  have "successCount s \<le> successCount (settled x (outcome x) s)" by (simp add: settled_def)
  also have "\<dots> \<le> successCount (foldl (\<lambda>t i. settled i (outcome i) t) (settled x (outcome x) s) xs)"
    by (rule Cons.IH)
  finally show ?case by simp
qed

lemma promise_all_successCount: "successCount s \<le> successCount (promise_all outcome s)"
  using settle_all_successCount[of s outcome "inFlight s"] by (simp add: promise_all_def)

lemma race_returns_with_target:
  assumes "1 \<le> concurrency"
  shows "race_loop concurrency loops outcome picks s = Resolved t \<Longrightarrow> loops \<le> successCount t"
proof (induction picks arbitrary: s)
  case Nil
  show ?case
  proof (cases "successCount s < loops")
    case True
    let ?s1 = "if inFlight s = [] then queueNext concurrency loops s else s"
    from True assms have "inFlight ?s1 \<noteq> []" by (simp add: queueNext_nonempty)
    with True Nil show ?thesis by (simp add: Let_def)
  next
    case False
    with Nil have "t = promise_all outcome s" by simp
    with False promise_all_successCount[of s outcome] show ?thesis by simp
  qed
next
  case (Cons p ps)
  show ?case
  proof (cases "successCount s < loops")
    case True
    let ?s1 = "if inFlight s = [] then queueNext concurrency loops s else s"
    let ?i = "pick p (inFlight ?s1)"
    from True assms have "inFlight ?s1 \<noteq> []" by (simp add: queueNext_nonempty)
    with True Cons.prems
    have "race_loop concurrency loops outcome ps
            (queueNext concurrency loops (settled ?i (outcome ?i) ?s1)) = Resolved t"
      by (simp add: Let_def)
    then show ?thesis by (rule Cons.IH)
  next
    case False
    with Cons.prems have "t = promise_all outcome s" by simp
    with False promise_all_successCount[of s outcome] show ?thesis by simp
  qed
qed

text \<open>
  The turbo queue resolves for every attempt budget, every mix of outcomes and every
  completion order, after at most \<open>maxAttempts\<close> completions; at that moment the target
  is met or the budget is spent with nothing in flight, and the attempts still in
  flight settle, in any order and with any outcome, without any further launch. The
  race queue has no attempt budget: it reaches its summary only with the target met,
  and never when every attempt fails.
\<close>

theorem turbo_queue_terminates:
  assumes "1 \<le> MAX_CONCURRENT_REQUESTS cfg" and "maxAttempts cfg \<le> length picks"
  shows "(\<exists>s. runHighThroughput cfg outcome picks = Resolved s \<and> resolved s \<and>
             attemptNumber s \<le> maxAttempts cfg \<and>
             (loopCount cfg \<le> successCount s \<or> (maxAttempts cfg \<le> attemptNumber s \<and> inFlight s = [])) \<and>
             (\<forall>later. attemptNumber (foldl (\<lambda>t (i, b). on_settled cfg i b t) s later) = attemptNumber s \<and>
                      resolved (foldl (\<lambda>t (i, b). on_settled cfg i b t) s later))) \<and>
         (1 \<le> concurrency \<longrightarrow>
            (\<forall>qs s. race_main concurrency loops outcome qs = Resolved s \<longrightarrow> loops \<le> successCount s)) \<and>
         (1 \<le> concurrency \<and> 1 \<le> loops \<longrightarrow>
            (\<forall>qs. \<exists>t. race_main concurrency loops all_fail qs = Pending t))"
proof (intro conjI)
  from turbo_reaches_resolution[OF assms]
  obtain t where t: "run_turbo cfg outcome picks (launchNext cfg initial) = Resolved t"
    and r: "resolved t" and l: "within_limits cfg t" and s: "stable cfg t" by blast
  from s r have "loopCount cfg \<le> successCount t \<or> (maxAttempts cfg \<le> attemptNumber t \<and> inFlight t = [])"
    by (simp add: stable_def)
  with t r l no_launch_after_resolve_all[OF s r]
  show "\<exists>s. runHighThroughput cfg outcome picks = Resolved s \<and> resolved s \<and>
             attemptNumber s \<le> maxAttempts cfg \<and>
             (loopCount cfg \<le> successCount s \<or> (maxAttempts cfg \<le> attemptNumber s \<and> inFlight s = [])) \<and>
             (\<forall>later. attemptNumber (foldl (\<lambda>t (i, b). on_settled cfg i b t) s later) = attemptNumber s \<and>
                      resolved (foldl (\<lambda>t (i, b). on_settled cfg i b t) s later))"
    by (auto simp: runHighThroughput_def within_limits_def)
next
  show "1 \<le> concurrency \<longrightarrow>
            (\<forall>qs s. race_main concurrency loops outcome qs = Resolved s \<longrightarrow> loops \<le> successCount s)"
    unfolding race_main_def using race_returns_with_target[of concurrency loops outcome] by blast
next
  show "1 \<le> concurrency \<and> 1 \<le> loops \<longrightarrow>
            (\<forall>qs. \<exists>t. race_main concurrency loops all_fail qs = Pending t)"
  proof (intro impI allI)
    fix qs
    assume a: "1 \<le> concurrency \<and> 1 \<le> loops"
    have "successCount (queueNext concurrency loops initial) = 0"
      by (simp add: queueNext_successCount initial_def)
    with a show "\<exists>t. race_main concurrency loops all_fail qs = Pending t"
      unfolding race_main_def by (intro race_all_fail_never_returns) simp_all
  qed
qed

theorem turbo_queue_terminates_witness:
  "runHighThroughput scenario_config all_fail (replicate 10 0) =
     Resolved \<lparr>attemptNumber = 10, successCount = 0, inFlight = [], resolved = True\<rparr> \<and>
   (\<exists>s. runHighThroughput scenario_config all_fail (replicate 10 0) = Resolved s \<and> resolved s \<and>
        attemptNumber s \<le> maxAttempts scenario_config) \<and>
   race_main 2 3 script_345 [0, 0, 0, 0, 0] =
     Resolved \<lparr>attemptNumber = 6, successCount = 3, inFlight = [], resolved = True\<rparr> \<and>
   (\<exists>t. race_main 2 3 all_fail [0, 0, 0] = Pending t)"
proof -
  have m: "1 \<le> MAX_CONCURRENT_REQUESTS scenario_config"
    by (simp add: scenario_config_def)
  have n: "maxAttempts scenario_config \<le> length (replicate 10 (0::nat))"
    by (simp add: scenario_config_def)
  have e: "runHighThroughput scenario_config all_fail (replicate 10 0) =
     Resolved \<lparr>attemptNumber = 10, successCount = 0, inFlight = [], resolved = True\<rparr>"
    by code_simp
  have r: "race_main 2 3 script_345 [0, 0, 0, 0, 0] =
     Resolved \<lparr>attemptNumber = 6, successCount = 3, inFlight = [], resolved = True\<rparr>"
    by code_simp
  have c: "(1::nat) \<le> 2 \<and> (1::nat) \<le> 3" by simp
  note t = turbo_queue_terminates[OF m n, of all_fail 2 3]
  from t[THEN conjunct2, THEN conjunct2] c
  have p: "\<exists>t. race_main 2 3 all_fail [0, 0, 0] = Pending t" by blast
  from t[THEN conjunct1] e r p show ?thesis by blast
qed

text \<open>
  Claim C2: for every finite attempt budget and every mix of outcomes, the all-failures
  case included, the run reaches its end and prints its summary. The race queue
  breaks it: it has no attempt budget, so when every attempt fails \<open>queueNext\<close> keeps
  launching and the loop never reaches the summary, whatever the completion order;
  its \<open>break\<close> on an empty set of attempts and its message for a shortfall are never
  reached. After 20 completions the run is still pending, with attempt 21 in flight.
\<close>

theorem race_queue_never_returns:
  "\<not> (\<exists>picks s. race_main 1 1 all_fail picks = Resolved s) \<and>
   race_main 1 1 all_fail (replicate 20 0) =
     Pending \<lparr>attemptNumber = 21, successCount = 0, inFlight = [21], resolved = False\<rparr>"
proof
  show "\<not> (\<exists>picks s. race_main 1 1 all_fail picks = Resolved s)"
  proof
    assume "\<exists>picks s. race_main 1 1 all_fail picks = Resolved s"
    then obtain picks s where r: "race_main 1 1 all_fail picks = Resolved s" by blast
    have "successCount (queueNext 1 1 initial) = 0"
      using queueNext_all_fail[of initial 1 1] by (simp add: initial_def)
    from race_all_fail_never_returns[OF _ _ this, of 1 1 picks]
    obtain t where "race_main 1 1 all_fail picks = Pending t"
      by (auto simp: race_main_def)
    with r show False by simp
  qed
  show "race_main 1 1 all_fail (replicate 20 0) =
     Pending \<lparr>attemptNumber = 21, successCount = 0, inFlight = [21], resolved = False\<rparr>"
    by code_simp
qed

section \<open>The scenario of the specification\<close>

lemma completed_settled:
  "well_formed s \<Longrightarrow> i \<in> set (inFlight s) \<Longrightarrow> completed (settled i b s) = insert i (completed s)"
  by (auto simp: completed_def settled_def well_formed_def)

lemma completed_launchNext:
  "well_formed s \<Longrightarrow> completed (launchNext cfg s) = completed s"
  by (auto simp: completed_def launchNext_closed well_formed_def)

lemma finite_completed: "finite (completed s)"
proof -
  have "completed s \<subseteq> {1..attemptNumber s}" by (auto simp: completed_def)
  then show ?thesis by (rule finite_subset) simp
qed

lemma counted_settled:
  assumes "well_formed s" and "i \<in> set (inFlight s)" and "counted outcome s"
  shows "counted outcome (settled i (outcome i) s)"
proof -
  let ?X = "{j \<in> completed s. outcome j}"
  have f: "finite ?X" using finite_completed[of s] by simp
  have n: "i \<notin> ?X" using assms(2) by (simp add: completed_def)
  have c: "completed (settled i (outcome i) s) = insert i (completed s)"
    using assms(1,2) by (rule completed_settled)
  show ?thesis
  proof (cases "outcome i")
    case True
    then have "{j \<in> insert i (completed s). outcome j} = insert i ?X" by auto
    with f n have "card {j \<in> insert i (completed s). outcome j} = Suc (card ?X)" by simp
    with True assms(3) c show ?thesis by (simp add: counted_def settled_def)
  next
    case False
    then have "{j \<in> insert i (completed s). outcome j} = ?X" by auto
    with False assms(3) c show ?thesis by (simp add: counted_def settled_def)
  qed
qed

lemma counted_launchNext:
  "well_formed s \<Longrightarrow> counted outcome s \<Longrightarrow> counted outcome (launchNext cfg s)"
  using completed_launchNext[of s cfg]
  by (auto simp: counted_def launchNext_closed)

lemma scenario_first_launches:
  "launchNext scenario_config initial =
     \<lparr>attemptNumber = 2, successCount = 0, inFlight = [1, 2], resolved = False\<rparr>"
  by code_simp

lemma scenario_start: "scenario_inv outcome (launchNext scenario_config initial)"
proof -
  have "completed \<lparr>attemptNumber = 2, successCount = 0, inFlight = [1, 2], resolved = False\<rparr> = {}"
    by (auto simp: completed_def)
  then show ?thesis
    unfolding scenario_first_launches
    by (simp add: scenario_inv_def well_formed_def counted_def within_limits_def stable_def
          scenario_config_def)
qed

lemma three_successes:
  assumes "scripted outcome" and "counted outcome s" and "{3, 4, 5} \<subseteq> completed s"
  shows "3 \<le> successCount s"
proof -
  from assms(1,3) have "{3, 4, 5} \<subseteq> {j \<in> completed s. outcome j}"
    by (auto simp: scripted_def)
  moreover have "finite {j \<in> completed s. outcome j}"
    using finite_completed[of s] by simp
  ultimately have "card {3, 4, 5 :: nat} \<le> card {j \<in> completed s. outcome j}"
    by (rule card_mono[rotated])
  with assms(2) show ?thesis by (simp add: counted_def)
qed

lemma scenario_step:
  assumes inv: "scenario_inv outcome s" and unresolved: "\<not> resolved s"
    and script: "scripted outcome" and mem: "i \<in> set (inFlight s)"
  shows "scenario_inv outcome (on_settled scenario_config i (outcome i) s)"
proof -
  define s1 where "s1 = settled i (outcome i) s"
  define s2 where "s2 = launchNext scenario_config s1"
  from inv have w: "well_formed s" and c: "counted outcome s"
    and l: "within_limits scenario_config s" and st: "stable scenario_config s"
    and a2: "2 \<le> attemptNumber s"
    and F: "1 \<in> set (inFlight s) \<or> 2 \<in> set (inFlight s) \<Longrightarrow> attemptNumber s \<le> 5"
    by (simp_all add: scenario_inv_def)
  from st unresolved have sc: "successCount s < 3"
    and full: "length (inFlight s) = 2 \<or> attemptNumber s = 10"
    by (simp_all add: stable_def scenario_config_def)
  have w1: "well_formed s1" unfolding s1_def using w by (rule well_formed_settled)
  have c1: "counted outcome s1" unfolding s1_def using w mem c by (rule counted_settled)
  have l1: "within_limits scenario_config s1" unfolding s1_def using l by (rule within_limits_settled)
  have r1: "\<not> resolved s1" unfolding s1_def using unresolved by (simp add: settled_def)
  have a1: "attemptNumber s1 = attemptNumber s" unfolding s1_def by (simp add: settled_def)
  have set1: "set (inFlight s1) = set (inFlight s) - {i}" unfolding s1_def by (auto simp: settled_def)
  have len1: "length (inFlight s1) + 1 = length (inFlight s)"
    unfolding s1_def using length_removeAll_distinct[of "inFlight s" i] w mem
    by (simp add: settled_def well_formed_def)
  have sc1: "successCount s1 \<le> 3" unfolding s1_def using sc by (simp add: settled_def)
  have w2: "well_formed s2" unfolding s2_def using w1 by (rule well_formed_launchNext)
  have c2: "counted outcome s2" unfolding s2_def using w1 c1 by (rule counted_launchNext)
  have l2: "within_limits scenario_config s2" unfolding s2_def using l1 by (rule within_limits_launchNext)
  have st2: "stable scenario_config s2" unfolding s2_def
    by (rule stable_launchNext[OF _ l1 r1]) (simp add: scenario_config_def)
  have g1: "2 \<le> attemptNumber s2"
    unfolding s2_def using a1 a2 by (simp add: launchNext_closed)
  have g2: "successCount s2 \<le> 3"
    unfolding s2_def using sc1 by (simp add: launchNext_closed)
  have g3: "inFlight s2 \<noteq> [] \<or> attemptNumber s2 = 10" if "resolved s2"
  proof -
    from that r1 have "inFlight s2 = inFlight s1 \<and> attemptNumber s2 = attemptNumber s1"
      unfolding s2_def by (auto simp: launchNext_closed split: if_splits)
    with full len1 a1 show ?thesis by auto
  qed
  have g4: "attemptNumber s2 \<le> 5" if x: "1 \<in> set (inFlight s2) \<or> 2 \<in> set (inFlight s2)"
  proof -
    have "set (inFlight s2) \<subseteq> set (inFlight s1) \<union> {j. attemptNumber s1 < j}"
      unfolding s2_def by (auto simp: launchNext_closed)
    with x a1 a2 have x1: "1 \<in> set (inFlight s1) \<or> 2 \<in> set (inFlight s1)" by auto
    with set1 have "1 \<in> set (inFlight s) \<or> 2 \<in> set (inFlight s)" by auto
    then have le5: "attemptNumber s \<le> 5" by (rule F)
    with full have "length (inFlight s) = 2" by simp
    with len1 have one: "length (inFlight s1) = 1" by simp
    show ?thesis
    proof (cases "3 \<le> successCount s1")
      case True
      then have "attemptNumber s2 = attemptNumber s1"
        unfolding s2_def by (simp add: launchNext_closed scenario_config_def)
      with a1 le5 show ?thesis by simp
    next
      case False
      have "room scenario_config s1 \<le> 1"
        using one by (simp add: room_def scenario_config_def)
      then have up: "attemptNumber s2 \<le> attemptNumber s + 1"
        unfolding s2_def using a1 by (simp add: launchNext_closed)
      have "attemptNumber s \<noteq> 5"
      proof
        assume five: "attemptNumber s = 5"
        from one obtain y where y: "inFlight s1 = [y]"
          by (cases "inFlight s1") simp_all
        with x1 have "y = 1 \<or> y = 2" by auto
        with y a1 five have "{3, 4, 5} \<subseteq> completed s1"
          by (auto simp: completed_def)
        with script c1 have "3 \<le> successCount s1" by (rule three_successes)
        with False show False by simp
      qed
      with le5 up show ?thesis by simp
    qed
  qed
  from w2 c2 l2 st2 g1 g2 g3 g4 show ?thesis
    unfolding on_settled_def s2_def[symmetric] s1_def[symmetric]
    by (auto simp: scenario_inv_def)
qed

lemma scenario_run:
  assumes "scripted outcome"
  shows "scenario_inv outcome s \<Longrightarrow> run_turbo scenario_config outcome picks s = Resolved t \<Longrightarrow>
         scenario_inv outcome t \<and> resolved t"
proof (induction picks arbitrary: s)
  case Nil
  then show ?case by (auto split: if_splits)
next
  case (Cons p ps)
  show ?case
  proof (cases "resolved s")
    case True
    with Cons.prems show ?thesis by simp
  next
    case False
    with Cons.prems(2) have ne: "inFlight s \<noteq> []" by (auto split: if_splits)
    let ?i = "pick p (inFlight s)"
    from ne have "?i \<in> set (inFlight s)" by (rule pick_mem)
    with Cons.prems(1) False assms
    have "scenario_inv outcome (on_settled scenario_config ?i (outcome ?i) s)"
      by (intro scenario_step)
    moreover from Cons.prems(2) False ne
    have "run_turbo scenario_config outcome ps (on_settled scenario_config ?i (outcome ?i) s) = Resolved t"
      by (simp add: Let_def)
    ultimately show ?thesis by (rule Cons.IH)
  qed
qed

lemma scenario_end:
  assumes script: "scripted outcome" and inv: "scenario_inv outcome s" and res: "resolved s"
  shows "successCount s = 3 \<and> 5 \<le> attemptNumber s \<and> attemptNumber s \<le> 10 \<and>
         (attemptNumber s = 5 \<longleftrightarrow> (1 \<in> set (inFlight s) \<or> 2 \<in> set (inFlight s)))"
proof -
  let ?X = "{j \<in> completed s. outcome j}"
  from inv have w: "well_formed s" and c: "counted outcome s"
    and l: "within_limits scenario_config s" and st: "stable scenario_config s"
    and le3: "successCount s \<le> 3"
    and F: "1 \<in> set (inFlight s) \<or> 2 \<in> set (inFlight s) \<Longrightarrow> attemptNumber s \<le> 5"
    and G: "inFlight s \<noteq> [] \<or> attemptNumber s = 10"
    using res by (simp_all add: scenario_inv_def)
  from st res have how: "3 \<le> successCount s \<or> (10 \<le> attemptNumber s \<and> inFlight s = [])"
    by (simp add: stable_def scenario_config_def)
  have ge3: "3 \<le> successCount s"
  proof (cases "3 \<le> successCount s")
    case True
    then show ?thesis .
  next
    case False
    with how have "10 \<le> attemptNumber s" and "inFlight s = []" by simp_all
    then have "{3, 4, 5} \<subseteq> completed s" by (auto simp: completed_def)
    with script c show ?thesis by (rule three_successes)
  qed
  with le3 have eq3: "successCount s = 3" by simp
  have fin: "finite ?X" using finite_completed[of s] by simp
  have "?X \<subseteq> {3..attemptNumber s}"
  proof
    fix j assume j: "j \<in> ?X"
    then have "1 \<le> j" and "j \<le> attemptNumber s" and "outcome j" by (simp_all add: completed_def)
    moreover from script have "\<not> outcome 1" and "\<not> outcome 2" by (simp_all add: scripted_def)
    ultimately have "j \<noteq> 1" and "j \<noteq> 2" by auto
    with \<open>1 \<le> j\<close> \<open>j \<le> attemptNumber s\<close> show "j \<in> {3..attemptNumber s}" by simp
  qed
  then have sub: "?X \<subseteq> {3..attemptNumber s}" .
  then have "card ?X \<le> card {3..attemptNumber s}" by (rule card_mono[rotated]) simp
  with eq3 c have ge5: "5 \<le> attemptNumber s" by (simp add: counted_def)
  from l have le10: "attemptNumber s \<le> 10" by (simp add: within_limits_def scenario_config_def)
  have iff: "attemptNumber s = 5 \<longleftrightarrow> (1 \<in> set (inFlight s) \<or> 2 \<in> set (inFlight s))"
  proof
    assume five: "attemptNumber s = 5"
    with sub have "?X \<subseteq> {3, 4, 5}" by auto
    moreover from eq3 c have "card ?X = card {3, 4, 5 :: nat}" by (simp add: counted_def)
    ultimately have "?X = {3, 4, 5}" by (intro card_subset_eq) simp_all
    then have done345: "3 \<in> completed s \<and> 4 \<in> completed s \<and> 5 \<in> completed s" by auto
    from G five obtain y where y: "y \<in> set (inFlight s)" by (cases "inFlight s") auto
    with w five have "1 \<le> y \<and> y \<le> 5" by (auto simp: well_formed_def)
    moreover from y done345 have "y \<noteq> 3 \<and> y \<noteq> 4 \<and> y \<noteq> 5" by (auto simp: completed_def)
    ultimately have "y = 1 \<or> y = 2" by auto
    with y show "1 \<in> set (inFlight s) \<or> 2 \<in> set (inFlight s)" by auto
  next
    assume "1 \<in> set (inFlight s) \<or> 2 \<in> set (inFlight s)"
    then have "attemptNumber s \<le> 5" by (rule F)
    with ge5 show "attemptNumber s = 5" by simp
  qed
  from eq3 ge5 le10 iff show ?thesis by simp
qed

text \<open>
  Claim C3, as the code has it. With a target of 3, a concurrency of 2, a budget of
  10 and a script in which attempts 1 and 2 fail and attempts 3, 4 and 5 succeed,
  every completion order ends with \<open>successCount = 3\<close> and with between 5 and 10
  attempts launched. Exactly 5 attempts are launched (none beyond index 5) in just the
  orders in which attempt 1 or attempt 2 is still in flight when the third success
  arrives; in every other order the slot freed by the fourth completion is refilled
  with attempt 6 before the target is met.
\<close>

theorem scenario_outcome:
  assumes "scripted outcome"
  shows "(10 \<le> length picks \<longrightarrow> (\<exists>s. runHighThroughput scenario_config outcome picks = Resolved s)) \<and>
         (\<forall>s. runHighThroughput scenario_config outcome picks = Resolved s \<longrightarrow>
              successCount s = 3 \<and> 5 \<le> attemptNumber s \<and> attemptNumber s \<le> 10 \<and>
              (attemptNumber s = 5 \<longleftrightarrow> (1 \<in> set (inFlight s) \<or> 2 \<in> set (inFlight s))))"
proof (rule conjI)
  show "10 \<le> length picks \<longrightarrow> (\<exists>s. runHighThroughput scenario_config outcome picks = Resolved s)"
  proof
    assume "10 \<le> length picks"
    then have "maxAttempts scenario_config \<le> length picks" by (simp add: scenario_config_def)
    moreover have "1 \<le> MAX_CONCURRENT_REQUESTS scenario_config" by (simp add: scenario_config_def)
    ultimately show "\<exists>s. runHighThroughput scenario_config outcome picks = Resolved s"
      using turbo_reaches_resolution[of scenario_config picks outcome]
      by (auto simp: runHighThroughput_def)
  qed
  show "\<forall>s. runHighThroughput scenario_config outcome picks = Resolved s \<longrightarrow>
              successCount s = 3 \<and> 5 \<le> attemptNumber s \<and> attemptNumber s \<le> 10 \<and>
              (attemptNumber s = 5 \<longleftrightarrow> (1 \<in> set (inFlight s) \<or> 2 \<in> set (inFlight s)))"
  proof (rule allI, rule impI)
    fix s assume "runHighThroughput scenario_config outcome picks = Resolved s"
    then have "run_turbo scenario_config outcome picks (launchNext scenario_config initial) = Resolved s"
      by (simp add: runHighThroughput_def)
    from scenario_run[OF assms scenario_start this]
    have "scenario_inv outcome s" and "resolved s" by simp_all
    with assms show "successCount s = 3 \<and> 5 \<le> attemptNumber s \<and> attemptNumber s \<le> 10 \<and>
              (attemptNumber s = 5 \<longleftrightarrow> (1 \<in> set (inFlight s) \<or> 2 \<in> set (inFlight s)))"
      by (rule scenario_end)
  qed
qed

theorem scenario_outcome_witness:
  "scripted script_345 \<and>
   completion_order scenario_config script_345 [0, 1, 1, 1] (launchNext scenario_config initial) =
     [1, 3, 4, 5] \<and>
   runHighThroughput scenario_config script_345 [0, 1, 1, 1] =
     Resolved \<lparr>attemptNumber = 5, successCount = 3, inFlight = [2], resolved = True\<rparr> \<and>
   (\<exists>s. runHighThroughput scenario_config script_345 (replicate 10 1) = Resolved s \<and>
        successCount s = 3 \<and> 5 \<le> attemptNumber s \<and> attemptNumber s \<le> 10)"
proof -
  have s: "scripted script_345" by (simp add: scripted_def script_345_def)
  have o: "completion_order scenario_config script_345 [0, 1, 1, 1] (launchNext scenario_config initial) =
     [1, 3, 4, 5]" by code_simp
  have r: "runHighThroughput scenario_config script_345 [0, 1, 1, 1] =
     Resolved \<lparr>attemptNumber = 5, successCount = 3, inFlight = [2], resolved = True\<rparr>"
    by code_simp
  have n: "10 \<le> length (replicate 10 (1::nat))" by simp
  note t = scenario_outcome[OF s, of "replicate 10 1"]
  from t[THEN conjunct1] n
  obtain u where u: "runHighThroughput scenario_config script_345 (replicate 10 1) = Resolved u"
    by blast
  with t[THEN conjunct2]
  have "successCount u = 3 \<and> 5 \<le> attemptNumber u \<and> attemptNumber u \<le> 10" by blast
  with u s o r show ?thesis by blast
qed

text \<open>
  The claim as written fails: when the attempts settle in the order 1, 2, 3, 4, 5,
  the completion of attempt 4 finds two successes and a free slot, and attempt 6 is
  launched.
\<close>

theorem scenario_launches_sixth_attempt:
  "scripted script_345 \<and>
   completion_order scenario_config script_345 [0, 0, 0, 0, 0] (launchNext scenario_config initial) =
     [1, 2, 3, 4, 5] \<and>
   runHighThroughput scenario_config script_345 [0, 0, 0, 0, 0] =
     Resolved \<lparr>attemptNumber = 6, successCount = 3, inFlight = [6], resolved = True\<rparr>"
proof -
  have s: "scripted script_345" by (simp add: scripted_def script_345_def)
  have o: "completion_order scenario_config script_345 [0, 0, 0, 0, 0] (launchNext scenario_config initial) =
     [1, 2, 3, 4, 5]" by code_simp
  have r: "runHighThroughput scenario_config script_345 [0, 0, 0, 0, 0] =
     Resolved \<lparr>attemptNumber = 6, successCount = 3, inFlight = [6], resolved = True\<rparr>"
    by code_simp
  from s o r show ?thesis by blast
qed

end
